theory Spec2Isabelle
  imports Main "HOL-Library.AList" "HOL-Library.Char_ord" "HOL-Library.List_Lexorder"
begin

section \<open>Strings\<close>

text \<open>
  JavaScript strings are modelled as \<open>string\<close>; \<open>s.length\<close> is \<open>length s\<close> and
  \<open>s.includes(pat)\<close> is \<open>str_includes s pat\<close>: the pattern occurs at some position of
  \<open>s\<close>.
\<close>

fun starts_with :: "string \<Rightarrow> string \<Rightarrow> bool" where
  "starts_with s [] = True"
| "starts_with [] (p # ps) = False"
| "starts_with (c # cs) (p # ps) = (c = p \<and> starts_with cs ps)"

fun str_includes :: "string \<Rightarrow> string \<Rightarrow> bool" where
  "str_includes [] pat = (pat = [])"
| "str_includes (c # cs) pat = (starts_with (c # cs) pat \<or> str_includes cs pat)"

section \<open>The resilient fetcher\<close>

text \<open>
  The fetcher with retries, \<^verbatim>\<open>scripts/fetch_regions_playwright.mjs\<close> by its header; its
  text is the second part of \<^verbatim>\<open>src/scripts/update-telegram-images.mjs\<close>.
\<close>

text \<open>
  The three tuning knobs read from the environment: \<open>MAX_FETCH_RETRY\<close>,
  \<open>MIN_HTML_BYTES\<close> and \<open>FETCH_BACKOFF_MS\<close> (defaults 3, 1500 and 2000). They are
  whatever integers the environment supplies, also zero or negative ones.
\<close>

record fetch_config =
  MAX_RETRY :: int
  MIN_BYTES :: int
  BACKOFF_MS :: int

text \<open>
  \<open>isSuspectHtml\<close>: the early return for an empty string, then the length and the two
  markers.
\<close>

definition isSuspectHtml :: "fetch_config \<Rightarrow> string \<Rightarrow> bool" where
  "isSuspectHtml cfg html =
     (if html = [] then True
      else (let len = int (length html);
                hasMarkers = (str_includes html ''DisconSchedule.fact'' \<and>
                              str_includes html ''DisconSchedule.preset'')
            in len < MIN_BYTES cfg \<or> \<not> hasMarkers))"

text \<open>
  What one attempt of the loop body obtains: \<open>page.goto\<close>, \<open>page.waitForTimeout\<close> or
  \<open>page.content\<close> throws (\<open>Threw\<close>: \<open>lastHtml\<close> is not assigned), or
  \<open>page.content\<close> returns the markup. The browser itself (\<open>ctx.newPage\<close>,
  \<open>page.close\<close>) is taken to work.
\<close>

datatype page_result = Threw | Content string

text \<open>The observable steps of a fetch: a navigation of attempt \<open>n\<close>, and a backoff sleep.\<close>

datatype fetch_event = Goto nat | Sleep int

record fetch_result =
  f_ok :: bool
  f_html :: string
  f_bytes :: nat
  f_attempt :: int

text \<open>
  The backoff after a rejected or failed attempt: nothing after the last attempt,
  otherwise \<open>sleep(BACKOFF_MS * attempt + jitter)\<close> with
  \<open>jitter = Math.floor(Math.random() * 400)\<close>, the value drawn at that attempt being
  \<open>jit attempt\<close>.
\<close>

definition backoff :: "fetch_config \<Rightarrow> (nat \<Rightarrow> nat) \<Rightarrow> nat \<Rightarrow> fetch_event list" where
  "backoff cfg jit attempt =
     (if int attempt < MAX_RETRY cfg
      then [Sleep (BACKOFF_MS cfg * int attempt + int (jit attempt))]
      else [])"

text \<open>
  The loop of \<open>fetchWithRetry\<close> from a given value of \<open>attempt\<close>, with the current
  \<open>lastHtml\<close> and the events so far. \<open>pages n\<close> is what attempt \<open>n\<close> obtains.
\<close>

function fetch_loop ::
  "fetch_config \<Rightarrow> (nat \<Rightarrow> page_result) \<Rightarrow> (nat \<Rightarrow> nat) \<Rightarrow> nat \<Rightarrow> string \<Rightarrow>
   fetch_event list \<Rightarrow> fetch_result \<times> fetch_event list" where
  "fetch_loop cfg pages jit attempt lastHtml evs =
     (if int attempt \<le> MAX_RETRY cfg then
        (case pages attempt of
           Content html \<Rightarrow>
             if \<not> isSuspectHtml cfg html
             then (\<lparr>f_ok = True, f_html = html, f_bytes = length html,
                    f_attempt = int attempt\<rparr>, evs @ [Goto attempt])
             else fetch_loop cfg pages jit (attempt + 1) html
                    (evs @ [Goto attempt] @ backoff cfg jit attempt)
         | Threw \<Rightarrow>
             fetch_loop cfg pages jit (attempt + 1) lastHtml
               (evs @ [Goto attempt] @ backoff cfg jit attempt))
      else (\<lparr>f_ok = False, f_html = lastHtml, f_bytes = length lastHtml,
             f_attempt = MAX_RETRY cfg\<rparr>, evs))"
  by pat_completeness auto
termination
  by (relation "measure (\<lambda>(cfg, pages, jit, attempt, lastHtml, evs).
        nat (MAX_RETRY cfg + 1 - int attempt))") auto

declare fetch_loop.simps [simp del]

definition fetchWithRetry ::
  "fetch_config \<Rightarrow> (nat \<Rightarrow> page_result) \<Rightarrow> (nat \<Rightarrow> nat) \<Rightarrow> fetch_result \<times> fetch_event list" where
  "fetchWithRetry cfg pages jit = fetch_loop cfg pages jit 1 [] []"

text \<open>
  One iteration of the loop over the regions: a region without a URL is skipped; an
  accepted fetch is written as it is (\<open>[OK]\<close>), a rejected one is written with a
  warning, \<open>res.html || '<!-- empty -->'\<close>.
\<close>

datatype region_outcome = Skipped | SavedOk string | SavedWarn string

definition fetch_region ::
  "fetch_config \<Rightarrow> string option \<Rightarrow> (nat \<Rightarrow> page_result) \<Rightarrow> (nat \<Rightarrow> nat) \<Rightarrow>
   region_outcome \<times> fetch_event list" where
  "fetch_region cfg url pages jit =
     (case url of
        None \<Rightarrow> (Skipped, [])
      | Some u \<Rightarrow>
          if u = [] then (Skipped, [])
          else (let (res, evs) = fetchWithRetry cfg pages jit
                in if f_ok res then (SavedOk (f_html res), evs)
                   else (SavedWarn (if f_html res = [] then ''<!-- empty -->''
                                                      else f_html res), evs)))"

text \<open>
  The content the exhausted loop hands back, in the spec's words: the content of the last
  attempt among \<open>1..n\<close> that obtained any, and the empty string when every attempt threw.
\<close>

fun last_content :: "(nat \<Rightarrow> page_result) \<Rightarrow> nat \<Rightarrow> string" where
  "last_content pages 0 = []"
| "last_content pages (Suc n) =
     (case pages (Suc n) of Content html \<Rightarrow> html | Threw \<Rightarrow> last_content pages n)"

text \<open>An attempt is accepted when it obtains content that the classifier lets pass.\<close>

definition accepted :: "fetch_config \<Rightarrow> (nat \<Rightarrow> page_result) \<Rightarrow> nat \<Rightarrow> bool" where
  "accepted cfg pages n =
     (case pages n of Content html \<Rightarrow> \<not> isSuspectHtml cfg html | Threw \<Rightarrow> False)"

section \<open>JavaScript values\<close>

text \<open>
  The values \<open>JSON.parse\<close> produces, and \<open>undefined\<close>. Numbers are the integers (chat and
  message identifiers are). An object is the list of its own properties in the order
  \<open>Object.keys\<close> enumerates them. Properties inherited from \<open>Object.prototype\<close>
  (\<open>constructor\<close>, \<open>__proto__\<close>, ...) are not modelled: no key is taken to name one.
\<close>

datatype jsval =
    JUndefined
  | JNull
  | JBool bool
  | JNum int
  | JStr string
  | JArr "jsval list"
  | JObj "(string \<times> jsval) list"

fun truthy :: "jsval \<Rightarrow> bool" where
  "truthy JUndefined = False"
| "truthy JNull = False"
| "truthy (JBool b) = b"
| "truthy (JNum n) = (n \<noteq> 0)"
| "truthy (JStr s) = (s \<noteq> [])"
| "truthy (JArr xs) = True"
| "truthy (JObj kvs) = True"

text \<open>Reading a property of \<open>null\<close> or \<open>undefined\<close> throws a TypeError.\<close>

fun nullish :: "jsval \<Rightarrow> bool" where
  "nullish JUndefined = True"
| "nullish JNull = True"
| "nullish v = False"

fun is_object :: "jsval \<Rightarrow> bool" where
  "is_object (JObj kvs) = True"
| "is_object v = False"

fun is_array :: "jsval \<Rightarrow> bool" where
  "is_array (JArr xs) = True"
| "is_array v = False"

text \<open>
  \<open>v.name\<close> for the named properties the scripts read (\<open>ok\<close>, \<open>result\<close>,
  \<open>message_id\<close>, \<open>error_code\<close>, \<open>description\<close>): an object yields its property or
  \<open>undefined\<close>; a number, a boolean, a string or an array has none of them. Every use
  on a value that can be \<open>null\<close> or \<open>undefined\<close> is guarded by \<open>nullish\<close>.
\<close>

fun get_prop :: "jsval \<Rightarrow> string \<Rightarrow> jsval" where
  "get_prop (JObj kvs) name = (case map_of kvs name of None \<Rightarrow> JUndefined | Some v \<Rightarrow> v)"
| "get_prop v name = JUndefined"

text \<open>
  \<open>a === b\<close>: primitives are compared by value, objects and arrays by identity. The
  values compared here come from different \<open>JSON.parse\<close> results, so an object or array is
  never identical to the other operand.
\<close>

fun is_primitive :: "jsval \<Rightarrow> bool" where
  "is_primitive (JArr xs) = False"
| "is_primitive (JObj kvs) = False"
| "is_primitive v = True"

definition strict_eq :: "jsval \<Rightarrow> jsval \<Rightarrow> bool" where
  "strict_eq a b = (is_primitive a \<and> a = b)"

text \<open>Decimal digits of a number, as \<open>Number.prototype.toString\<close> prints an integer.\<close>

fun digits :: "nat \<Rightarrow> string" where
  "digits n = (if n < 10 then [''0123456789'' ! n]
               else digits (n div 10) @ [''0123456789'' ! (n mod 10)])"

declare digits.simps [simp del]

definition show_int :: "int \<Rightarrow> string" where
  "show_int i = (if i < 0 then CHR ''-'' # digits (nat (- i)) else digits (nat i))"

fun join_comma :: "string list \<Rightarrow> string" where
  "join_comma [] = []"
| "join_comma [s] = s"
| "join_comma (s # t # ss) = s @ '','' @ join_comma (t # ss)"

text \<open>
  The property key a value is converted to in \<open>messageMap[chatId]\<close> (ToString): a string
  is itself, a number its decimal digits, an array its elements joined by commas with
  \<open>null\<close> and \<open>undefined\<close> elements empty.
\<close>

fun to_string :: "jsval \<Rightarrow> string" where
  "to_string JUndefined = ''undefined''"
| "to_string JNull = ''null''"
| "to_string (JBool b) = (if b then ''true'' else ''false'')"
| "to_string (JNum n) = show_int n"
| "to_string (JStr s) = s"
| "to_string (JArr xs) =
     join_comma (map (\<lambda>x. if nullish x then [] else to_string x) xs)"
| "to_string (JObj kvs) = ''[object Object]''"

text \<open>
  \<open>obj.name = v\<close> in a module (strict mode): an object takes the property, keeping the
  position of a property it already has; a primitive throws a TypeError (\<open>None\<close>). An
  array takes the property as an object does; it is kept here as the object of its
  indexed properties and the new one (nothing but the named property is read afterwards).
\<close>

fun set_prop :: "jsval \<Rightarrow> string \<Rightarrow> jsval \<Rightarrow> jsval option" where
  "set_prop (JObj kvs) name v = Some (JObj (AList.update name v kvs))"
| "set_prop (JArr xs) name v =
     Some (JObj (AList.update name v (zip (map (\<lambda>i. digits i) [0..<length xs]) xs)))"
| "set_prop u name v = None"

section \<open>The message map and its file\<close>

text \<open>
  The in-memory map \<open>messageMap\<close>: its own properties, each key once.
  \<open>lookup m k\<close> is \<open>m[k]\<close>.
\<close>

type_synonym message_map = "(string \<times> jsval) list"

definition lookup :: "message_map \<Rightarrow> string \<Rightarrow> jsval" where
  "lookup m k = (case map_of m k of None \<Rightarrow> JUndefined | Some v \<Rightarrow> v)"

text \<open>
  What \<open>loadMessageMap\<close> finds on disk, one constructor for each way its calls end:
  \<open>fs.existsSync\<close> is false; \<open>fs.readFileSync\<close> throws; the text is empty after
  \<open>trim()\<close>; \<open>JSON.parse\<close> throws; \<open>JSON.parse\<close> returns a value.
\<close>

datatype map_file = NoFile | ReadError | Blank | NotJson | Json jsval

text \<open>
  The body of the loop over the array: \<open>item && typeof item === 'object'\<close> holds of
  objects and arrays; \<open>[k] = Object.keys(item)\<close> is the first key, \<open>undefined\<close> when
  there is none, and an empty key is falsy. The first key of a non-empty array is \<open>0\<close>.
\<close>

fun first_entry :: "jsval \<Rightarrow> (string \<times> jsval) option" where
  "first_entry (JObj ((k, v) # kvs)) = (if k = [] then None else Some (k, v))"
| "first_entry (JArr (x # xs)) = Some (''0'', x)"
| "first_entry item = None"

fun load_items :: "message_map \<Rightarrow> jsval list \<Rightarrow> message_map" where
  "load_items m [] = m"
| "load_items m (item # arr) =
     (case first_entry item of
        None \<Rightarrow> load_items m arr
      | Some (k, v) \<Rightarrow> load_items (AList.update k v m) arr)"

fun loadMessageMap :: "map_file \<Rightarrow> message_map" where
  "loadMessageMap NoFile = []"
| "loadMessageMap ReadError = []"
| "loadMessageMap Blank = []"
| "loadMessageMap NotJson = []"
| "loadMessageMap (Json (JArr arr)) = load_items [] arr"
| "loadMessageMap (Json v) = []"

text \<open>
  \<open>JSON.stringify\<close> leaves out a property whose value is \<open>undefined\<close>: the object
  \<open>{ message_id: v }\<close> as the file holds it.
\<close>

definition record_of :: "jsval \<Rightarrow> jsval" where
  "record_of v = JObj (if v = JUndefined then [] else [(''message_id'', v)])"

text \<open>
  \<open>Object.keys(map)\<close>: the keys that are array indices (canonical decimal numerals below
  \<open>2^32 - 1\<close>) in ascending numeric order, then the other keys in the order they were
  added, which is the order of the list.
\<close>

definition is_digit :: "char \<Rightarrow> bool" where
  "is_digit c = (48 \<le> (of_char c :: int) \<and> (of_char c :: int) \<le> 57)"

definition dec_value :: "string \<Rightarrow> int" where
  "dec_value k = foldl (\<lambda>a c. 10 * a + (of_char c - 48)) 0 k"

definition array_index :: "string \<Rightarrow> int option" where
  "array_index k =
     (case k of
        [] \<Rightarrow> None
      | c # cs \<Rightarrow>
          if list_all is_digit k \<and> (c \<noteq> CHR ''0'' \<or> cs = []) \<and> dec_value k < 4294967295
          then Some (dec_value k) else None)"

definition object_keys :: "message_map \<Rightarrow> string list" where
  "object_keys m =
     (let ks = map fst m
      in sort_key (\<lambda>k. case array_index k of Some n \<Rightarrow> n | None \<Rightarrow> 0)
           (filter (\<lambda>k. array_index k \<noteq> None) ks)
         @ filter (\<lambda>k. array_index k = None) ks)"

text \<open>
  \<open>a.localeCompare(b)\<close> is the platform's collation (ICU), not code of the repository:
  the comparator is a parameter \<open>lc\<close>, with \<open>lc a b\<close> the number \<open>a.localeCompare(b)\<close>.
  \<open>keys.sort((a, b) => a.localeCompare(b))\<close> is a stable sort, whose result for a
  consistent comparator is determined: the keys in ascending order, those that the
  comparator reports equal in the order they had. Here each key, from the last to the
  first, goes before the first key it does not come after.
\<close>

type_synonym collation = "string \<Rightarrow> string \<Rightarrow> int"

fun insert_by :: "collation \<Rightarrow> string \<Rightarrow> string list \<Rightarrow> string list" where
  "insert_by lc x [] = [x]"
| "insert_by lc x (y # ys) = (if lc x y \<le> 0 then x # y # ys else y # insert_by lc x ys)"

definition sort_by :: "collation \<Rightarrow> string list \<Rightarrow> string list" where
  "sort_by lc xs = foldr (insert_by lc) xs []"

text \<open>
  \<open>saveMessageMap\<close>: the value whose JSON text is handed to \<open>fs.writeFileSync\<close>, or
  \<open>None\<close> when building it throws (\<open>map[k].message_id\<close> on a \<open>null\<close> entry) and the
  function returns \<open>false\<close> without writing.
\<close>

definition saveMessageMap :: "collation \<Rightarrow> message_map \<Rightarrow> jsval option" where
  "saveMessageMap lc m =
     (let keys = sort_by lc (object_keys m)
      in if list_ex (\<lambda>k. nullish (lookup m k)) keys then None
         else Some (JArr (map (\<lambda>k. JObj [(k, record_of (get_prop (lookup m k) ''message_id''))])
                            keys)))"

text \<open>
  A well-formed persisted map, in the spec's words: a JSON array of single-key objects,
  each mapping a chat-id string to an object with a \<open>message_id\<close>.
\<close>

definition persisted :: "(string \<times> jsval) list \<Rightarrow> jsval" where
  "persisted kvs = JArr (map (\<lambda>(k, v). JObj [(k, JObj [(''message_id'', v)])]) kvs)"

section \<open>The message updater\<close>

text \<open>
  A chat target of \<open>CHATS_JSON\<close>: an object whose \<open>chat_id\<close> is any value
  (\<open>JUndefined\<close> when absent) and whose \<open>image_url\<close> and \<open>caption\<close>, when
  present, are strings. \<open>title\<close> only enters the log.
\<close>

record chat_target =
  chat_id :: jsval
  image_url :: "string option"
  caption :: "string option"

text \<open>The guard of the loop: \<open>!c.chat_id || !c.image_url\<close> skips the target.\<close>

definition valid_target :: "chat_target \<Rightarrow> bool" where
  "valid_target c =
     (truthy (chat_id c) \<and> (case image_url c of None \<Rightarrow> False | Some u \<Rightarrow> u \<noteq> []))"








text \<open>
  The requests sent to the Bot API, with the chat and message identifiers they carry
  (the photo and the caption of a send or an edit are those of \<open>request_media\<close>),
  and what a request comes back with: \<open>fetch\<close> or \<open>res.json()\<close> throws, or the parsed
  body. The \<open>n\<close>-th request of a run (from 0) gets \<open>env n\<close>.
\<close>

datatype api_call =
    SendPhoto jsval
  | EditMessageMedia jsval jsval
  | PinChatMessage jsval jsval

datatype response = NetworkError | Reply jsval

type_synonym env = "nat \<Rightarrow> response"

fun is_send :: "api_call \<Rightarrow> bool" where
  "is_send (SendPhoto c) = True"
| "is_send a = False"

fun is_edit :: "api_call \<Rightarrow> bool" where
  "is_edit (EditMessageMedia c m) = True"
| "is_edit a = False"

fun is_pin :: "api_call \<Rightarrow> bool" where
  "is_pin (PinChatMessage c m) = True"
| "is_pin a = False"

text \<open>
  The objects pushed to \<open>results\<close>; a field the source leaves out is \<open>JUndefined\<close>,
  \<open>False\<close> or \<open>None\<close>.
\<close>

record send_result =
  ok :: bool
  chat :: chat_target
  message_id :: jsval
  replaced :: bool
  not_modified :: bool
  reason :: "string option"

definition failed :: "chat_target \<Rightarrow> send_result" where
  "failed c = \<lparr>ok = False, chat = c, message_id = JUndefined, replaced = False,
               not_modified = False, reason = None\<rparr>"

definition succeeded :: "chat_target \<Rightarrow> jsval \<Rightarrow> send_result" where
  "succeeded c mid = \<lparr>ok = True, chat = c, message_id = mid, replaced = False,
                      not_modified = False, reason = None\<rparr>"

definition invalid_config :: "chat_target \<Rightarrow> send_result" where
  "invalid_config c = \<lparr>ok = False, chat = c, message_id = JUndefined, replaced = False,
                       not_modified = False, reason = Some ''invalid-config''\<rparr>"

text \<open>
  The state of a run: the map and its dirty flag, the requests issued so far (oldest
  first) and the results pushed so far.
\<close>

record state =
  messageMap :: message_map
  mapDirty :: bool
  calls :: "api_call list"
  results :: "send_result list"

text \<open>
  A request went through when \<open>fetch\<close> and \<open>res.json()\<close> return and \<open>json.ok\<close> is
  truthy; an exception, also the TypeError of \<open>json.ok\<close> on a \<open>null\<close> body, is caught
  and reported as a failure.
\<close>

definition reply_ok :: "response \<Rightarrow> bool" where
  "reply_ok r =
     (case r of NetworkError \<Rightarrow> False
      | Reply json \<Rightarrow> \<not> nullish json \<and> truthy (get_prop json ''ok''))"

text \<open>\<open>json.result && json.result.message_id\<close> of a reply.\<close>

definition reply_id :: "response \<Rightarrow> jsval" where
  "reply_id r =
     (case r of NetworkError \<Rightarrow> JUndefined
      | Reply json \<Rightarrow>
          (let res = get_prop json ''result''
           in if truthy res then get_prop res ''message_id'' else res))"

definition pinMessage :: "env \<Rightarrow> jsval \<Rightarrow> jsval \<Rightarrow> state \<Rightarrow> bool \<times> state" where
  "pinMessage env cid mid s =
     (reply_ok (env (length (calls s))),
      s\<lparr>calls := calls s @ [PinChatMessage cid mid]\<rparr>)"

definition sendPhoto :: "env \<Rightarrow> chat_target \<Rightarrow> state \<Rightarrow> send_result \<times> state" where
  "sendPhoto env c s =
     (let r = env (length (calls s));
          s1 = s\<lparr>calls := calls s @ [SendPhoto (chat_id c)]\<rparr>
      in if \<not> reply_ok r then (failed c, s1)
         else (let messageId = reply_id r;
                   (pinned, s2) = pinMessage env (chat_id c) messageId s1
               in (succeeded c messageId, s2)))"

text \<open>
  The two tests on a failed edit: \<open>json.error_code === 400\<close>, and
  \<open>typeof json.description === 'string' &&
  json.description.includes('message is not modified')\<close>.
\<close>

definition error_400 :: "response \<Rightarrow> bool" where
  "error_400 r =
     (case r of NetworkError \<Rightarrow> False
      | Reply json \<Rightarrow> strict_eq (get_prop json ''error_code'') (JNum 400))"

definition says_not_modified :: "response \<Rightarrow> bool" where
  "says_not_modified r =
     (case r of
        Reply json \<Rightarrow>
          (case get_prop json ''description'' of
             JStr d \<Rightarrow> str_includes d ''message is not modified''
           | _ \<Rightarrow> False)
      | NetworkError \<Rightarrow> False)"

definition editPhoto :: "env \<Rightarrow> chat_target \<Rightarrow> jsval \<Rightarrow> state \<Rightarrow> send_result \<times> state" where
  "editPhoto env c messageId s =
     (let r = env (length (calls s));
          s1 = s\<lparr>calls := calls s @ [EditMessageMedia (chat_id c) messageId]\<rparr>
      in case r of
           NetworkError \<Rightarrow> (failed c, s1)
         | Reply json \<Rightarrow>
             if nullish json then (failed c, s1)
             else if \<not> truthy (get_prop json ''ok'') then
               (if error_400 r \<and> says_not_modified r then
                  (let (pinned, s2) = pinMessage env (chat_id c) messageId s1
                   in ((succeeded c JUndefined)\<lparr>not_modified := True\<rparr>, s2))
                else if error_400 r then
                  (let (sent, s2) = sendPhoto env c s1
                   in (sent\<lparr>replaced := True\<rparr>, s2))
                else (failed c, s1))
             else
               (let (pinned, s2) = pinMessage env (chat_id c) messageId s1
                in (succeeded c JUndefined, s2)))"

text \<open>
  \<open>setMessageId\<close>; \<open>None\<close> is the TypeError of assigning \<open>message_id\<close> on an entry
  that is a truthy primitive, which nothing catches.
\<close>

definition setMessageId :: "jsval \<Rightarrow> jsval \<Rightarrow> state \<Rightarrow> state option" where
  "setMessageId chatId messageId s =
     (if \<not> truthy messageId then Some s
      else
        (let k = to_string chatId;
             m1 = (if \<not> truthy (lookup (messageMap s) k)
                   then AList.update k (JObj []) (messageMap s) else messageMap s);
             cur = lookup m1 k
         in if \<not> strict_eq (get_prop cur ''message_id'') messageId then
              (case set_prop cur ''message_id'' messageId of
                 None \<Rightarrow> None
               | Some cur' \<Rightarrow>
                   Some (s\<lparr>messageMap := AList.update k cur' m1, mapDirty := True\<rparr>))
            else Some (s\<lparr>messageMap := m1\<rparr>)))"

text \<open>\<open>messageMap[c.chat_id]?.message_id\<close>.\<close>

definition known_id :: "message_map \<Rightarrow> jsval \<Rightarrow> jsval" where
  "known_id m chatId =
     (let v = lookup m (to_string chatId)
      in if nullish v then JUndefined else get_prop v ''message_id'')"

text \<open>The body of the loop over \<open>chats\<close> for one target.\<close>

definition process_chat :: "env \<Rightarrow> chat_target \<Rightarrow> state \<Rightarrow> state option" where
  "process_chat env c s =
     (if \<not> valid_target c then Some (s\<lparr>results := results s @ [invalid_config c]\<rparr>)
      else
        (let known = known_id (messageMap s) (chat_id c)
         in if \<not> truthy known then
              (let (r, s1) = sendPhoto env c s
               in case (if ok r \<and> truthy (message_id r)
                        then setMessageId (chat_id c) (message_id r) s1 else Some s1) of
                    None \<Rightarrow> None
                  | Some s2 \<Rightarrow> Some (s2\<lparr>results := results s2 @ [r]\<rparr>))
            else
              (let (r, s1) = editPhoto env c known s
               in case (if ok r \<and> replaced r \<and> truthy (message_id r)
                        then setMessageId (chat_id c) (message_id r) s1 else Some s1) of
                    None \<Rightarrow> None
                  | Some s2 \<Rightarrow> Some (s2\<lparr>results := results s2 @ [r]\<rparr>))))"

fun run_chats :: "env \<Rightarrow> chat_target list \<Rightarrow> state \<Rightarrow> state option" where
  "run_chats env [] s = Some s"
| "run_chats env (c # cs) s =
     (case process_chat env c s of None \<Rightarrow> None | Some s' \<Rightarrow> run_chats env cs s')"

text \<open>
  How the script ends once the token and \<open>CHATS_JSON\<close> are read: \<open>process.exit(5)\<close>
  on an empty list; an uncaught TypeError (Node ends the process with code 1, nothing
  is saved); or the end of the function, with the final state, the value handed to
  \<open>fs.writeFileSync\<close> if \<open>saveMessageMap\<close> got that far, and the exit code: 10 when
  \<open>failures\<close> is not empty, 0 otherwise.
\<close>

datatype outcome = Fatal nat | Uncaught | Done state "jsval option" nat

definition genuine_failure :: "send_result \<Rightarrow> bool" where
  "genuine_failure r = (\<not> ok r \<and> reason r \<noteq> Some ''invalid-config'')"

definition main :: "env \<Rightarrow> collation \<Rightarrow> chat_target list \<Rightarrow> map_file \<Rightarrow> outcome" where
  "main env lc chats file =
     (if chats = [] then Fatal 5
      else
        (case run_chats env chats
                \<lparr>messageMap = loadMessageMap file, mapDirty = False, calls = [], results = []\<rparr> of
           None \<Rightarrow> Uncaught
         | Some s \<Rightarrow>
             Done s (if mapDirty s then saveMessageMap lc (messageMap s) else None)
                  (if filter genuine_failure (results s) \<noteq> [] then 10 else 0)))"

section \<open>Vocabulary of the properties of the updater\<close>


text \<open>What a run hands to \<open>fs.writeFileSync\<close>, if anything.\<close>

definition written :: "outcome \<Rightarrow> jsval option" where
  "written out = (case out of Done s w code \<Rightarrow> w | _ \<Rightarrow> None)"

text \<open>
  The map is in the documented format when every key is mapped to an object.
\<close>

definition records_ok :: "message_map \<Rightarrow> bool" where
  "records_ok m = list_all (\<lambda>kv. is_object (snd kv)) m"

text \<open>
  A record's \<open>message_id\<close> changed between two maps: some chat of the later map has
  a \<open>message_id\<close> other than the one the earlier map had for it (\<open>undefined\<close> when it
  had none).
\<close>

definition id_changed :: "message_map \<Rightarrow> message_map \<Rightarrow> bool" where
  "id_changed m m' =
     list_ex (\<lambda>k. get_prop (lookup m' k) ''message_id'' \<noteq> get_prop (lookup m k) ''message_id'')
       (map fst m')"

text \<open>
  The spec's algorithm for one valid target, given the identifier \<open>known\<close> recorded for
  the chat and the number \<open>n\<close> of requests issued before: the requests it issues, the
  result it reports, and the identifier a send of it returned (\<open>JUndefined\<close> when no
  send went through). \<open>process_chat_closed_form\<close> below shows that the loop body does
  exactly this.
\<close>

definition expected_calls :: "env \<Rightarrow> nat \<Rightarrow> jsval \<Rightarrow> jsval \<Rightarrow> api_call list" where
  "expected_calls env n cid known =
     (if \<not> truthy known then
        SendPhoto cid # (if reply_ok (env n) then [PinChatMessage cid (reply_id (env n))] else [])
      else
        EditMessageMedia cid known #
          (if reply_ok (env n) \<or> (error_400 (env n) \<and> says_not_modified (env n))
           then [PinChatMessage cid known]
           else if error_400 (env n)
           then SendPhoto cid #
                  (if reply_ok (env (Suc n)) then [PinChatMessage cid (reply_id (env (Suc n)))]
                   else [])
           else []))"

definition expected_result :: "env \<Rightarrow> nat \<Rightarrow> chat_target \<Rightarrow> jsval \<Rightarrow> send_result" where
  "expected_result env n c known =
     (if \<not> truthy known then
        (if reply_ok (env n) then succeeded c (reply_id (env n)) else failed c)
      else if reply_ok (env n) \<or> (error_400 (env n) \<and> says_not_modified (env n))
      then (succeeded c JUndefined)\<lparr>not_modified := \<not> reply_ok (env n)\<rparr>
      else if error_400 (env n)
      then (if reply_ok (env (Suc n)) then succeeded c (reply_id (env (Suc n))) else failed c)
             \<lparr>replaced := True\<rparr>
      else failed c)"

definition sent_id :: "env \<Rightarrow> nat \<Rightarrow> jsval \<Rightarrow> jsval" where
  "sent_id env n known =
     (if \<not> truthy known then (if reply_ok (env n) then reply_id (env n) else JUndefined)
      else if \<not> reply_ok (env n) \<and> error_400 (env n) \<and> \<not> says_not_modified (env n) \<and>
              reply_ok (env (Suc n))
      then reply_id (env (Suc n)) else JUndefined)"

text \<open>
  Some record's \<open>message_id\<close> changed during a run over the targets \<open>cs\<close> from state
  \<open>s\<close>: it changed while one of them was processed.
\<close>

fun changed_during :: "env \<Rightarrow> chat_target list \<Rightarrow> state \<Rightarrow> bool" where
  "changed_during env [] s = False"
| "changed_during env (c # cs) s =
     (case process_chat env c s of
        None \<Rightarrow> False
      | Some s' \<Rightarrow> id_changed (messageMap s) (messageMap s') \<or> changed_during env cs s')"

text \<open>
  A comparator is consistent when \<open>lc a b\<close> is negative exactly when \<open>lc b a\<close> is
  positive and "not after" is transitive; \<open>localeCompare\<close> is.
\<close>

definition consistent :: "collation \<Rightarrow> bool" where
  "consistent lc =
     ((\<forall>a b. (lc a b < 0) = (0 < lc b a)) \<and>
      (\<forall>a b c. lc a b \<le> 0 \<and> lc b c \<le> 0 \<longrightarrow> lc a c \<le> 0))"

text \<open>
  The comparator of the examples: what \<open>localeCompare\<close> returns on keys made of a minus
  sign, \<open>@\<close>, decimal digits and lower-case letters, where punctuation sorts before
  digits and digits before letters.
\<close>

definition char_rank :: "char \<Rightarrow> nat" where
  "char_rank c = (if c = CHR ''-'' then 0 else if c = CHR ''@'' then 1 else 2 + of_char c)"

definition sample_compare :: collation where
  "sample_compare a b =
     (if map char_rank a < map char_rank b then - 1
      else if map char_rank a = map char_rank b then 0 else 1)"


section \<open>Properties of the fetcher\<close>

lemma starts_with_iff: "starts_with s pat \<longleftrightarrow> (\<exists>post. s = pat @ post)"
  by (induction s pat rule: starts_with.induct) auto

lemma str_includes_iff: "str_includes s pat \<longleftrightarrow> (\<exists>pre post. s = pre @ pat @ post)"
proof (induction s)
  case Nil
  then show ?case by auto
next
  case (Cons c cs)
  show ?case
  proof
    assume "str_includes (c # cs) pat"
    then consider "starts_with (c # cs) pat" | "str_includes cs pat" by auto
    then show "\<exists>pre post. c # cs = pre @ pat @ post"
    proof cases
      case 1
      then obtain post where "c # cs = pat @ post" by (auto simp: starts_with_iff)
      then have "c # cs = [] @ pat @ post" by simp
      then show ?thesis by blast
    next
      case 2
      then obtain pre post where "cs = pre @ pat @ post" using Cons.IH by auto
      then have "c # cs = (c # pre) @ pat @ post" by simp
      then show ?thesis by blast
    qed
  next
    assume "\<exists>pre post. c # cs = pre @ pat @ post"
    then obtain pre post where e: "c # cs = pre @ pat @ post" by auto
    show "str_includes (c # cs) pat"
    proof (cases pre)
      case Nil
      then have "starts_with (c # cs) pat" using e by (auto simp: starts_with_iff)
      then show ?thesis by simp
    next
      case (Cons p ps)
      then have "cs = ps @ pat @ post" using e by simp
      then have "str_includes cs pat" using Cons.IH by blast
      then show ?thesis by simp
    qed
  qed
qed

text \<open>
  C3. The classifier reports content as suspect exactly when its length is below
  \<open>MIN_BYTES\<close> or one of the markers \<open>DisconSchedule.fact\<close>, \<open>DisconSchedule.preset\<close>
  does not occur in it; content of at least that length holding both is accepted.
\<close>

theorem isSuspectHtml_iff:
  "isSuspectHtml cfg html \<longleftrightarrow>
     (int (length html) < MIN_BYTES cfg \<or>
      \<not> (\<exists>pre post. html = pre @ ''DisconSchedule.fact'' @ post) \<or>
      \<not> (\<exists>pre post. html = pre @ ''DisconSchedule.preset'' @ post))"
proof (cases "html = []")
  case True
  then show ?thesis by (simp add: isSuspectHtml_def)
next
  case False
  then show ?thesis
    unfolding isSuspectHtml_def Let_def str_includes_iff by auto
qed

theorem isSuspectHtml_iff_witness:
  "\<not> isSuspectHtml \<lparr>MAX_RETRY = 3, MIN_BYTES = 30, BACKOFF_MS = 2000\<rparr>
       ''DisconSchedule.fact DisconSchedule.preset'' \<and>
   isSuspectHtml \<lparr>MAX_RETRY = 3, MIN_BYTES = 1500, BACKOFF_MS = 2000\<rparr>
       ''DisconSchedule.fact DisconSchedule.preset'' \<and>
   isSuspectHtml \<lparr>MAX_RETRY = 3, MIN_BYTES = 3, BACKOFF_MS = 2000\<rparr> ''<html>DisconSchedule.fact''"
proof -
  have r: "isSuspectHtml cfg html \<longleftrightarrow>
       (int (length html) < MIN_BYTES cfg \<or> \<not> str_includes html ''DisconSchedule.fact'' \<or>
        \<not> str_includes html ''DisconSchedule.preset'')" for cfg html
    using isSuspectHtml_iff [of cfg html] unfolding str_includes_iff .
  show ?thesis unfolding r by simp
qed

lemma fetch_loop_accept:
  assumes "a \<le> k" "int k \<le> MAX_RETRY cfg" "accepted cfg pages k"
    "\<forall>j. a \<le> j \<and> j < k \<longrightarrow> \<not> accepted cfg pages j"
    "pages k = Content html"
  shows "fetch_loop cfg pages jit a l evs =
     (\<lparr>f_ok = True, f_html = html, f_bytes = length html, f_attempt = int k\<rparr>,
      evs @ concat (map (\<lambda>j. [Goto j, Sleep (BACKOFF_MS cfg * int j + int (jit j))]) [a..<k])
          @ [Goto k])"
  using assms
proof (induction "k - a" arbitrary: a l evs)
  case 0
  then have "a = k" by simp
  then show ?case using 0
    by (subst fetch_loop.simps) (simp add: accepted_def)
next
  case (Suc d)
  then have lt: "a < k" by simp
  then have na: "\<not> accepted cfg pages a" using Suc.prems by simp
  have le: "int a \<le> MAX_RETRY cfg" "int a < MAX_RETRY cfg" using lt Suc.prems by auto
  have IH: "fetch_loop cfg pages jit (Suc a) l' evs' =
     (\<lparr>f_ok = True, f_html = html, f_bytes = length html, f_attempt = int k\<rparr>,
      evs' @ concat (map (\<lambda>j. [Goto j, Sleep (BACKOFF_MS cfg * int j + int (jit j))]) [Suc a..<k])
          @ [Goto k])" for l' evs'
    using Suc.hyps(1) [of "Suc a" l' evs'] Suc.hyps(2) Suc.prems lt by auto
  have up: "[a..<k] = a # [Suc a..<k]" using lt by (simp add: upt_conv_Cons)
  show ?case
    by (subst fetch_loop.simps)
       (use na le in \<open>auto simp: IH up backoff_def accepted_def split: page_result.splits\<close>)
qed

lemma fetch_loop_exhaust:
  assumes "1 \<le> a" "a \<le> Suc m" "m = nat (MAX_RETRY cfg)"
    "\<forall>j. a \<le> j \<and> j \<le> m \<longrightarrow> \<not> accepted cfg pages j"
  shows "fetch_loop cfg pages jit a (last_content pages (a - 1)) evs =
     (\<lparr>f_ok = False, f_html = last_content pages m, f_bytes = length (last_content pages m),
       f_attempt = MAX_RETRY cfg\<rparr>,
      evs @ concat (map (\<lambda>j. Goto j # backoff cfg jit j) [a..<Suc m]))"
  using assms
proof (induction "Suc m - a" arbitrary: a evs)
  case 0
  then have "a = Suc m" by simp
  then have "\<not> int a \<le> MAX_RETRY cfg" using 0 by auto
  then show ?case using \<open>a = Suc m\<close>
    by (subst fetch_loop.simps) simp
next
  case (Suc d)
  then have lt: "a \<le> m" by simp
  then have na: "\<not> accepted cfg pages a" using Suc.prems by simp
  have le: "int a \<le> MAX_RETRY cfg" using lt Suc.prems by auto
  obtain b where b: "a = Suc b" using Suc.prems(1) by (cases a) auto
  have IH: "fetch_loop cfg pages jit (Suc a) (last_content pages a) evs' =
     (\<lparr>f_ok = False, f_html = last_content pages m, f_bytes = length (last_content pages m),
       f_attempt = MAX_RETRY cfg\<rparr>,
      evs' @ concat (map (\<lambda>j. Goto j # backoff cfg jit j) [Suc a..<Suc m]))" for evs'
    using Suc.hyps(1) [of "Suc a" evs'] Suc.hyps(2) Suc.prems lt by auto
  have up: "[a..<Suc m] = a # [Suc a..<Suc m]" using lt by (simp add: upt_conv_Cons)
  have step: "fetch_loop cfg pages jit a (last_content pages (a - 1)) evs =
      fetch_loop cfg pages jit (Suc a) (last_content pages a)
        (evs @ [Goto a] @ backoff cfg jit a)"
  proof (cases "pages a")
    case Threw
    then have lc: "last_content pages a = last_content pages (a - 1)" using b by simp
    show ?thesis
      by (subst fetch_loop.simps) (use Threw le lc in simp)
  next
    case (Content h)
    then have lc: "last_content pages a = h" using b by simp
    have "isSuspectHtml cfg h" using na Content by (simp add: accepted_def)
    then show ?thesis
      by (subst fetch_loop.simps) (use Content le lc in simp)
  qed
  show ?case unfolding step IH up by simp
qed

lemma backoff_nat:
  "m = nat (MAX_RETRY cfg) \<Longrightarrow>
   backoff cfg jit j = (if j < m then [Sleep (BACKOFF_MS cfg * int j + int (jit j))] else [])"
  by (auto simp: backoff_def)

text \<open>
  C2 (amended). The fetch makes at most \<open>MAX_RETRY\<close> attempts. When attempt \<open>k\<close> is the
  first to obtain content that passes the classifier, the fetch returns it at once: the
  events are the navigations \<open>1..k\<close>, each of the first \<open>k - 1\<close> followed by a sleep
  of \<open>BACKOFF_MS * attempt + jitter\<close>, and no sleep follows navigation \<open>k\<close>; the
  content is written as accepted. When no attempt is accepted, every attempt but the
  last is followed by that sleep, and what is written, flagged as a warning, is the
  last content obtained when that is not empty, and the placeholder
  \<open><!-- empty -->\<close> when it is empty (every attempt threw).
\<close>

theorem fetch_region_retry:
  assumes "u \<noteq> []" and "m = nat (MAX_RETRY cfg)"
  shows
    "(1 \<le> k \<and> k \<le> m \<and> pages k = Content html \<and> \<not> isSuspectHtml cfg html \<and>
      (\<forall>j. 1 \<le> j \<and> j < k \<longrightarrow> \<not> accepted cfg pages j) \<longrightarrow>
        fetchWithRetry cfg pages jit =
          (\<lparr>f_ok = True, f_html = html, f_bytes = length html, f_attempt = int k\<rparr>,
           concat (map (\<lambda>j. [Goto j, Sleep (BACKOFF_MS cfg * int j + int (jit j))]) [1..<k])
             @ [Goto k]) \<and>
        fst (fetch_region cfg (Some u) pages jit) = SavedOk html) \<and>
     ((\<forall>j. 1 \<le> j \<and> j \<le> m \<longrightarrow> \<not> accepted cfg pages j) \<longrightarrow>
        fetchWithRetry cfg pages jit =
          (\<lparr>f_ok = False, f_html = last_content pages m,
            f_bytes = length (last_content pages m), f_attempt = MAX_RETRY cfg\<rparr>,
           concat (map (\<lambda>j. Goto j #
                     (if j < m then [Sleep (BACKOFF_MS cfg * int j + int (jit j))] else []))
                   [1..<Suc m])) \<and>
        fst (fetch_region cfg (Some u) pages jit) =
          SavedWarn (if last_content pages m = [] then ''<!-- empty -->''
                     else last_content pages m))"
proof (intro conjI impI)
  assume h: "1 \<le> k \<and> k \<le> m \<and> pages k = Content html \<and> \<not> isSuspectHtml cfg html \<and>
      (\<forall>j. 1 \<le> j \<and> j < k \<longrightarrow> \<not> accepted cfg pages j)"
  then have acc: "accepted cfg pages k" by (simp add: accepted_def)
  have le: "int k \<le> MAX_RETRY cfg" using h assms(2) by auto
  show r: "fetchWithRetry cfg pages jit =
          (\<lparr>f_ok = True, f_html = html, f_bytes = length html, f_attempt = int k\<rparr>,
           concat (map (\<lambda>j. [Goto j, Sleep (BACKOFF_MS cfg * int j + int (jit j))]) [1..<k])
             @ [Goto k])"
    unfolding fetchWithRetry_def
    using fetch_loop_accept [of 1 k cfg pages html jit "[]" "[]"] h acc le by simp
  show "fst (fetch_region cfg (Some u) pages jit) = SavedOk html"
    using assms(1) by (simp add: fetch_region_def r)
next
  assume h: "\<forall>j. 1 \<le> j \<and> j \<le> m \<longrightarrow> \<not> accepted cfg pages j"
  have b: "(\<lambda>j. Goto j # backoff cfg jit j) =
      (\<lambda>j. Goto j # (if j < m then [Sleep (BACKOFF_MS cfg * int j + int (jit j))] else []))"
    using backoff_nat [OF assms(2)] by auto
  show r: "fetchWithRetry cfg pages jit =
          (\<lparr>f_ok = False, f_html = last_content pages m,
            f_bytes = length (last_content pages m), f_attempt = MAX_RETRY cfg\<rparr>,
           concat (map (\<lambda>j. Goto j #
                     (if j < m then [Sleep (BACKOFF_MS cfg * int j + int (jit j))] else []))
                   [1..<Suc m]))"
    unfolding fetchWithRetry_def
    using fetch_loop_exhaust [of 1 m cfg pages jit "[]"] h assms(2) unfolding b by simp
  show "fst (fetch_region cfg (Some u) pages jit) =
          SavedWarn (if last_content pages m = [] then ''<!-- empty -->''
                     else last_content pages m)"
    using assms(1) by (simp add: fetch_region_def r)
qed

theorem fetch_region_retry_witness:
  "fetchWithRetry \<lparr>MAX_RETRY = 3, MIN_BYTES = 30, BACKOFF_MS = 2000\<rparr>
     (\<lambda>n. if n = 1 then Content ''<html>checking your browser</html>''
          else if n = 2 then Content ''DisconSchedule.fact DisconSchedule.preset'' else Threw)
     (\<lambda>n. 100 + n)
   = (\<lparr>f_ok = True, f_html = ''DisconSchedule.fact DisconSchedule.preset'', f_bytes = 41,
       f_attempt = 2\<rparr>, [Goto 1, Sleep 2101, Goto 2]) \<and>
   fst (fetch_region \<lparr>MAX_RETRY = 3, MIN_BYTES = 30, BACKOFF_MS = 2000\<rparr>
     (Some ''https://example.org/kyiv'')
     (\<lambda>n. if n = 1 then Content ''<html>checking your browser</html>''
          else if n = 2 then Content ''DisconSchedule.fact DisconSchedule.preset'' else Threw)
     (\<lambda>n. 100 + n))
   = SavedOk ''DisconSchedule.fact DisconSchedule.preset'' \<and>
   fetchWithRetry \<lparr>MAX_RETRY = 3, MIN_BYTES = 30, BACKOFF_MS = 2000\<rparr>
     (\<lambda>n. if n = 1 then Content ''<html>checking your browser</html>'' else Threw)
     (\<lambda>n. 100 + n)
   = (\<lparr>f_ok = False, f_html = ''<html>checking your browser</html>'', f_bytes = 34,
       f_attempt = 3\<rparr>, [Goto 1, Sleep 2101, Goto 2, Sleep 4102, Goto 3]) \<and>
   fst (fetch_region \<lparr>MAX_RETRY = 3, MIN_BYTES = 30, BACKOFF_MS = 2000\<rparr>
     (Some ''https://example.org/kyiv'')
     (\<lambda>n. if n = 1 then Content ''<html>checking your browser</html>'' else Threw)
     (\<lambda>n. 100 + n))
   = SavedWarn ''<html>checking your browser</html>''"
proof -
  let ?cfg = "\<lparr>MAX_RETRY = 3, MIN_BYTES = 30, BACKOFF_MS = 2000\<rparr>"
  let ?good = "''DisconSchedule.fact DisconSchedule.preset''"
  let ?p1 = "\<lambda>n::nat. if n = 1 then Content ''<html>checking your browser</html>''
          else if n = 2 then Content ?good else Threw"
  let ?p2 = "\<lambda>n::nat. if n = 1 then Content ''<html>checking your browser</html>'' else Threw"
  let ?jit = "\<lambda>n::nat. 100 + n"
  have ne: "''https://example.org/kyiv'' \<noteq> []" by simp
  have m: "(3::nat) = nat (MAX_RETRY ?cfg)" by simp
  have n1: "\<forall>j. 1 \<le> j \<and> j < 2 \<longrightarrow> \<not> accepted ?cfg ?p1 j"
    by (auto simp: accepted_def isSuspectHtml_def)
  have h1: "1 \<le> (2::nat) \<and> 2 \<le> (3::nat) \<and> ?p1 2 = Content ?good \<and> \<not> isSuspectHtml ?cfg ?good \<and>
      (\<forall>j. 1 \<le> j \<and> j < 2 \<longrightarrow> \<not> accepted ?cfg ?p1 j)"
    using n1 by (simp add: isSuspectHtml_def)
  have h2: "\<forall>j. 1 \<le> j \<and> j \<le> 3 \<longrightarrow> \<not> accepted ?cfg ?p2 j"
    by (auto simp: accepted_def isSuspectHtml_def)
  have u12: "[1..<2] = [1::nat]" and u14: "[1..<Suc 3] = [1::nat, 2, 3]"
    by (simp_all add: upt_conv_Cons)
  have lc: "last_content ?p2 3 = ''<html>checking your browser</html>''"
    by (simp add: numeral_3_eq_3)
  note a = fetch_region_retry [OF ne m, of 2 ?p1 ?good ?jit, THEN conjunct1, THEN mp, OF h1]
  note b = fetch_region_retry [OF ne m, of 2 ?p2 ?good ?jit, THEN conjunct2, THEN mp, OF h2]
  have a1: "fetchWithRetry ?cfg ?p1 ?jit
     = (\<lparr>f_ok = True, f_html = ?good, f_bytes = 41, f_attempt = 2\<rparr>,
        [Goto 1, Sleep 2101, Goto 2])"
    using a [THEN conjunct1] unfolding u12 by simp
  have b1: "fetchWithRetry ?cfg ?p2 ?jit
     = (\<lparr>f_ok = False, f_html = ''<html>checking your browser</html>'', f_bytes = 34,
         f_attempt = 3\<rparr>, [Goto 1, Sleep 2101, Goto 2, Sleep 4102, Goto 3])"
    using b [THEN conjunct1] unfolding u14 lc by simp
  have b2: "fst (fetch_region ?cfg (Some ''https://example.org/kyiv'') ?p2 ?jit)
     = SavedWarn ''<html>checking your browser</html>''"
    using b [THEN conjunct2] unfolding lc by simp
  show ?thesis using a1 a [THEN conjunct2] b1 b2 by simp
qed

text \<open>
  C2 as stated fails where every attempt throws: the last-obtained content is the empty
  string, and the file receives the placeholder, not the empty content.
\<close>

theorem fetch_region_all_threw:
  "f_html (fst (fetchWithRetry \<lparr>MAX_RETRY = 3, MIN_BYTES = 1500, BACKOFF_MS = 2000\<rparr>
                  (\<lambda>n. Threw) (\<lambda>n. 0))) = [] \<and>
   fst (fetch_region \<lparr>MAX_RETRY = 3, MIN_BYTES = 1500, BACKOFF_MS = 2000\<rparr>
          (Some ''https://example.org/kyiv'') (\<lambda>n. Threw) (\<lambda>n. 0))
     = SavedWarn ''<!-- empty -->''"
  by (simp add: fetch_region_def fetchWithRetry_def fetch_loop.simps backoff_def)

section \<open>Properties of the message map file\<close>

lemma update_fresh: "k \<notin> fst ` set m \<Longrightarrow> AList.update k v m = m @ [(k, v)]"
  by (induction m) auto

lemma load_items_distinct:
  "distinct (map fst m) \<Longrightarrow> distinct (map fst (load_items m arr))"
  by (induction arr arbitrary: m) (auto simp: AList.distinct_update split: option.splits)

lemma load_items_append:
  "load_items m (xs @ ys) = load_items (load_items m xs) ys"
  by (induction xs arbitrary: m) (auto split: option.splits)

lemma load_items_map_of:
  "map_of (load_items m arr) = map_of (rev (List.map_filter first_entry arr) @ m)"
proof (induction arr arbitrary: m)
  case Nil
  then show ?case by (simp add: List.map_filter_simps)
next
  case (Cons item arr)
  show ?case
  proof (cases "first_entry item")
    case None
    then show ?thesis using Cons by (simp add: List.map_filter_simps)
  next
    case (Some kv)
    obtain k v where kv: "kv = (k, v)" by (cases kv)
    have "map_of (load_items (AList.update k v m) arr)
        = map_of (rev (List.map_filter first_entry arr) @ AList.update k v m)"
      using Cons by simp
    also have "\<dots> = map_of (rev (List.map_filter first_entry arr) @ (k, v) # m)"
      by (rule ext) (simp add: map_add_def AList.update_conv' split: option.splits)
    finally show ?thesis using Some kv by (simp add: List.map_filter_simps)
  qed
qed


lemma load_items_fresh:
  assumes "distinct (map fst kvs)" "fst ` set kvs \<inter> fst ` set m = {}"
    "\<forall>kv\<in>set kvs. fst kv \<noteq> []"
  shows "load_items m (map (\<lambda>(k, v). JObj [(k, JObj [(''message_id'', v)])]) kvs)
       = m @ map (\<lambda>(k, v). (k, JObj [(''message_id'', v)])) kvs"
  using assms
proof (induction kvs arbitrary: m)
  case Nil
  then show ?case by simp
next
  case (Cons kv kvs)
  obtain k v where kv: "kv = (k, v)" by (cases kv)
  have fresh: "k \<notin> fst ` set m" using Cons.prems kv by auto
  have d: "distinct (map fst kvs)" using Cons.prems by simp
  have i: "fst ` set kvs \<inter> fst ` set (m @ [(k, JObj [(''message_id'', v)])]) = {}"
    using Cons.prems kv by auto
  have n: "\<forall>kv\<in>set kvs. fst kv \<noteq> []" using Cons.prems by simp
  have k: "k \<noteq> []" using Cons.prems kv by simp
  show ?case
    using Cons.IH [OF d i n] k by (simp add: kv update_fresh [OF fresh])
qed

lemma lookup_records:
  assumes "distinct (map fst kvs)" "(k, v) \<in> set kvs"
  shows "lookup (map (\<lambda>(k, v). (k, JObj [(''message_id'', v)])) kvs) k
       = JObj [(''message_id'', v)]"
proof -
  have "distinct (map fst (map (\<lambda>(k, v). (k, JObj [(''message_id'', v)])) kvs))"
    using assms(1) by (simp add: comp_def case_prod_unfold)
  moreover have "(k, JObj [(''message_id'', v)])
      \<in> set (map (\<lambda>(k, v). (k, JObj [(''message_id'', v)])) kvs)"
    using assms(2) by force
  ultimately have "map_of (map (\<lambda>(k, v). (k, JObj [(''message_id'', v)])) kvs) k
      = Some (JObj [(''message_id'', v)])"
    by (rule map_of_is_SomeI)
  then show ?thesis by (simp add: lookup_def)
qed

lemma sort_by_Nil [simp]: "sort_by lc [] = []"
  by (simp add: sort_by_def)

lemma sort_by_Cons [simp]: "sort_by lc (x # xs) = insert_by lc x (sort_by lc xs)"
  by (simp add: sort_by_def)

lemma set_insert_by [simp]: "set (insert_by lc x ys) = insert x (set ys)"
  by (induction ys) auto

lemma set_sort_by [simp]: "set (sort_by lc xs) = set xs"
  by (induction xs) auto

lemma distinct_insert_by: "distinct (insert_by lc x ys) = (x \<notin> set ys \<and> distinct ys)"
  by (induction ys) auto

lemma distinct_sort_by [simp]: "distinct (sort_by lc xs) = distinct xs"
  by (induction xs) (auto simp: distinct_insert_by)

lemma consistent_total: "consistent lc \<Longrightarrow> \<not> lc a b \<le> 0 \<Longrightarrow> lc b a \<le> 0"
  unfolding consistent_def by (metis less_le_not_le linorder_not_le)

lemma consistent_trans: "consistent lc \<Longrightarrow> lc a b \<le> 0 \<Longrightarrow> lc b c \<le> 0 \<Longrightarrow> lc a c \<le> 0"
  unfolding consistent_def by blast

lemma consistent_strict: "consistent lc \<Longrightarrow> lc a b < 0 \<Longrightarrow> \<not> lc b a \<le> 0"
  unfolding consistent_def by (metis linorder_not_le)

lemma consistent_sample: "consistent sample_compare"
  unfolding consistent_def sample_compare_def by (auto split: if_splits)

lemma sorted_insert_by:
  assumes "consistent lc" "sorted_wrt (\<lambda>a b. lc a b \<le> 0) ys"
  shows "sorted_wrt (\<lambda>a b. lc a b \<le> 0) (insert_by lc x ys)"
  using assms(2)
proof (induction ys)
  case Nil
  then show ?case by simp
next
  case (Cons y ys)
  show ?case
  proof (cases "lc x y \<le> 0")
    case True
    then have "\<forall>z\<in>set ys. lc x z \<le> 0"
      using Cons.prems consistent_trans [OF assms(1)] by auto
    then show ?thesis using True Cons.prems by simp
  next
    case False
    then have "lc y x \<le> 0" using consistent_total [OF assms(1)] by blast
    then show ?thesis using False Cons by auto
  qed
qed

lemma sorted_sort_by:
  "consistent lc \<Longrightarrow> sorted_wrt (\<lambda>a b. lc a b \<le> 0) (sort_by lc xs)"
  by (induction xs) (auto simp: sorted_insert_by)

lemma sorted_unique:
  assumes "consistent lc"
  shows "sorted_wrt (\<lambda>a b. lc a b < 0) xs \<Longrightarrow> sorted_wrt (\<lambda>a b. lc a b \<le> 0) ys \<Longrightarrow>
         distinct ys \<Longrightarrow> set ys = set xs \<Longrightarrow> ys = xs"
proof (induction xs arbitrary: ys)
  case Nil
  then show ?case by simp
next
  case (Cons x xs)
  have irr: "\<not> lc a a < 0" for a using assms unfolding consistent_def by (metis less_asym)
  have xn: "x \<notin> set xs" using Cons.prems(1) irr by auto
  obtain y ys' where ys: "ys = y # ys'" using Cons.prems(4) by (cases ys) auto
  have "y = x"
  proof (rule ccontr)
    assume ne: "y \<noteq> x"
    then have "y \<in> set xs" using Cons.prems(4) ys by auto
    then have a: "lc x y < 0" using Cons.prems(1) by auto
    have "x \<in> set ys'" using Cons.prems(4) ys ne by auto
    then have "lc y x \<le> 0" using Cons.prems(2) ys by auto
    then show False using consistent_strict [OF assms a] by simp
  qed
  moreover have "set ys' = set xs"
    using Cons.prems(3,4) ys xn \<open>y = x\<close> by auto
  ultimately show ?case
    using Cons.IH [of ys'] Cons.prems ys by auto
qed

lemma set_object_keys [simp]: "set (object_keys m) = fst ` set m"
  by (auto simp: object_keys_def Let_def)

lemma distinct_object_keys: "distinct (map fst m) \<Longrightarrow> distinct (object_keys m)"
  by (auto simp: object_keys_def Let_def)

lemma save_load_explicit:
  assumes "distinct (map fst kvs)"
    and "\<forall>kv\<in>set kvs. fst kv \<noteq> [] \<and> snd kv \<noteq> JUndefined"
    and "al = map (\<lambda>(k, v). (k, JObj [(''message_id'', v)])) kvs"
  shows "saveMessageMap lc (loadMessageMap (Json (persisted kvs)))
       = Some (persisted (map (\<lambda>k. (k, get_prop (lookup al k) ''message_id''))
                              (sort_by lc (object_keys al))))"
proof -
  have l: "loadMessageMap (Json (persisted kvs)) = al"
    using load_items_fresh [of kvs "[]"] assms by (simp add: persisted_def)
  have keys: "fst ` set al = fst ` set kvs" unfolding assms(3) by force
  have look: "lookup al k = JObj [(''message_id'', v)]" if "(k, v) \<in> set kvs" for k v
    unfolding assms(3) using lookup_records [OF assms(1) that] .
  have nn: "\<not> list_ex (\<lambda>k. nullish (lookup al k)) (sort_by lc (object_keys al))"
    using look keys by (auto simp: list_ex_iff)
  have "record_of (get_prop (lookup al k) ''message_id'')
      = JObj [(''message_id'', get_prop (lookup al k) ''message_id'')]"
    if kin: "k \<in> set (sort_by lc (object_keys al))" for k
  proof -
    obtain v where kv: "(k, v) \<in> set kvs" using kin keys by auto
    then have "v \<noteq> JUndefined" using assms(2) by auto
    then show ?thesis using look [OF kv] by (simp add: record_of_def)
  qed
  then have ent: "map (\<lambda>k. JObj [(k, record_of (get_prop (lookup al k) ''message_id''))])
                 (sort_by lc (object_keys al))
      = map (\<lambda>k. JObj [(k, JObj [(''message_id'', get_prop (lookup al k) ''message_id'')])])
            (sort_by lc (object_keys al))"
    by simp
  show ?thesis
    unfolding l saveMessageMap_def Let_def using nn ent by (simp add: persisted_def comp_def)
qed

text \<open>
  C4 (amended). For a persisted map whose chat-id keys are non-empty and pairwise
  distinct, each mapped to an object holding exactly a \<open>message_id\<close> (a JSON value,
  so not \<open>undefined\<close>), and a consistent comparator: saving the map obtained by loading
  it writes the same records, each key once, in the ascending order of
  \<open>localeCompare\<close>; it reproduces the array read, \<open>save(load(x)) = x\<close>, when the keys
  of that array are in strictly ascending order.
\<close>

theorem save_load_roundtrip:
  assumes "consistent lc" and "distinct (map fst kvs)"
    and "\<forall>kv\<in>set kvs. fst kv \<noteq> [] \<and> snd kv \<noteq> JUndefined"
  shows "(\<exists>kvs'. saveMessageMap lc (loadMessageMap (Json (persisted kvs))) = Some (persisted kvs') \<and>
            set kvs' = set kvs \<and> distinct (map fst kvs') \<and>
            sorted_wrt (\<lambda>a b. lc a b \<le> 0) (map fst kvs')) \<and>
         (sorted_wrt (\<lambda>a b. lc a b < 0) (map fst kvs) \<longrightarrow>
            saveMessageMap lc (loadMessageMap (Json (persisted kvs))) = Some (persisted kvs))"
proof -
  define al where "al = map (\<lambda>(k, v). (k, JObj [(''message_id'', v)])) kvs"
  define ks where "ks = sort_by lc (object_keys al)"
  define kvs' where "kvs' = map (\<lambda>k. (k, get_prop (lookup al k) ''message_id'')) ks"
  have s: "saveMessageMap lc (loadMessageMap (Json (persisted kvs))) = Some (persisted kvs')"
    unfolding kvs'_def ks_def using save_load_explicit [OF assms(2,3) al_def] .
  have keys: "fst ` set al = fst ` set kvs" unfolding al_def by force
  have dal: "distinct (map fst al)"
    unfolding al_def using assms(2) by (simp add: comp_def case_prod_unfold)
  have look: "get_prop (lookup al k) ''message_id'' = v" if "(k, v) \<in> set kvs" for k v
    unfolding al_def using lookup_records [OF assms(2) that] by simp
  have fk: "map fst kvs' = ks" unfolding kvs'_def by (simp add: comp_def)
  have sk: "set ks = fst ` set kvs" unfolding ks_def using keys by simp
  have dk: "distinct ks"
    unfolding ks_def using distinct_object_keys [OF dal] by simp
  have so: "sorted_wrt (\<lambda>a b. lc a b \<le> 0) ks"
    unfolding ks_def using sorted_sort_by [OF assms(1)] .
  have "set kvs' = set kvs"
  proof
    show "set kvs' \<subseteq> set kvs"
    proof
      fix p assume "p \<in> set kvs'"
      then obtain k where k: "k \<in> set ks" "p = (k, get_prop (lookup al k) ''message_id'')"
        unfolding kvs'_def by auto
      then obtain v where "(k, v) \<in> set kvs" using sk by auto
      then show "p \<in> set kvs" using k(2) look by simp
    qed
    show "set kvs \<subseteq> set kvs'"
    proof
      fix p assume p: "p \<in> set kvs"
      obtain k v where kv: "p = (k, v)" by (cases p)
      have "k \<in> set ks" using p kv sk by force
      then have "(k, get_prop (lookup al k) ''message_id'') \<in> set kvs'"
        unfolding kvs'_def by simp
      then show "p \<in> set kvs'" using look p kv by simp
    qed
  qed
  then have 1: "\<exists>kvs'. saveMessageMap lc (loadMessageMap (Json (persisted kvs))) = Some (persisted kvs') \<and>
            set kvs' = set kvs \<and> distinct (map fst kvs') \<and>
            sorted_wrt (\<lambda>a b. lc a b \<le> 0) (map fst kvs')"
    using s fk dk so by auto
  have 2: "saveMessageMap lc (loadMessageMap (Json (persisted kvs))) = Some (persisted kvs)"
    if st: "sorted_wrt (\<lambda>a b. lc a b < 0) (map fst kvs)"
  proof -
    have "ks = map fst kvs"
      using sorted_unique [OF assms(1) st so dk] sk by simp
    then have "kvs' = map (\<lambda>kv. (fst kv, get_prop (lookup al (fst kv)) ''message_id'')) kvs"
      unfolding kvs'_def by (simp add: comp_def)
    also have "\<dots> = map (\<lambda>kv. kv) kvs"
      by (rule map_cong) (use look in auto)
    finally have "kvs' = kvs" by simp
    then show ?thesis using s by simp
  qed
  show ?thesis using 1 2 by blast
qed

theorem save_load_roundtrip_witness:
  "(\<exists>kvs'. saveMessageMap sample_compare
              (loadMessageMap (Json (persisted [(''100'', JNum 41), (''@kyiv'', JNum 7)])))
            = Some (persisted kvs') \<and>
          set kvs' = {(''100'', JNum 41), (''@kyiv'', JNum 7)} \<and>
          sorted_wrt (\<lambda>a b. sample_compare a b \<le> 0) (map fst kvs')) \<and>
   saveMessageMap sample_compare
       (loadMessageMap (Json (persisted [(''@kyiv'', JNum 7), (''100'', JNum 41)])))
     = Some (persisted [(''@kyiv'', JNum 7), (''100'', JNum 41)])"
proof -
  have a: "\<exists>kvs'. saveMessageMap sample_compare
              (loadMessageMap (Json (persisted [(''100'', JNum 41), (''@kyiv'', JNum 7)])))
            = Some (persisted kvs') \<and>
          set kvs' = {(''100'', JNum 41), (''@kyiv'', JNum 7)} \<and>
          sorted_wrt (\<lambda>a b. sample_compare a b \<le> 0) (map fst kvs')"
    using save_load_roundtrip [where lc = sample_compare
        and kvs = "[(''100'', JNum 41), (''@kyiv'', JNum 7)]", THEN conjunct1] consistent_sample
    by auto
  have st: "sorted_wrt (\<lambda>a b. sample_compare a b < 0)
      (map fst [(''@kyiv'', JNum 7), (''100'', JNum 41)])"
    by (simp add: sample_compare_def char_rank_def)
  have b: "saveMessageMap sample_compare
       (loadMessageMap (Json (persisted [(''@kyiv'', JNum 7), (''100'', JNum 41)])))
     = Some (persisted [(''@kyiv'', JNum 7), (''100'', JNum 41)])"
    using save_load_roundtrip [where lc = sample_compare
        and kvs = "[(''@kyiv'', JNum 7), (''100'', JNum 41)]", THEN conjunct2] consistent_sample st
    by simp
  show ?thesis using a b by blast
qed

text \<open>
  C4 as stated fails on arrays that are well-formed in its words: with the keys not in
  ascending order the array written is reordered; with a key twice only its last record
  is written; a property of a record other than \<open>message_id\<close> is dropped; an element
  with the empty key is dropped.
\<close>

theorem save_load_not_identity:
  "saveMessageMap sample_compare
      (loadMessageMap (Json (JArr [JObj [(''2'', JObj [(''message_id'', JNum 20)])],
                                   JObj [(''1'', JObj [(''message_id'', JNum 10)])]])))
     = Some (JArr [JObj [(''1'', JObj [(''message_id'', JNum 10)])],
                   JObj [(''2'', JObj [(''message_id'', JNum 20)])]]) \<and>
   saveMessageMap sample_compare
      (loadMessageMap (Json (JArr [JObj [(''1'', JObj [(''message_id'', JNum 10)])],
                                   JObj [(''1'', JObj [(''message_id'', JNum 20)])]])))
     = Some (JArr [JObj [(''1'', JObj [(''message_id'', JNum 20)])]]) \<and>
   saveMessageMap sample_compare
      (loadMessageMap (Json (JArr [JObj [(''1'', JObj [(''message_id'', JNum 10),
                                                        (''title'', JStr ''kyiv'')])]])))
     = Some (JArr [JObj [(''1'', JObj [(''message_id'', JNum 10)])]]) \<and>
   saveMessageMap sample_compare
      (loadMessageMap (Json (JArr [JObj [([], JObj [(''message_id'', JNum 10)])]])))
     = Some (JArr [])"
  by (simp add: saveMessageMap_def object_keys_def array_index_def dec_value_def is_digit_def
      sample_compare_def char_rank_def lookup_def record_of_def)

text \<open>
  C10. \<open>loadMessageMap\<close> returns a map in every case: the empty map for a missing or
  unreadable file, a blank file, unparsable JSON and JSON that is not an array; for an
  array, a map with each key once, built from the first key of each element alone (the
  entry of a key is that of the last element whose first key it is; the other keys of
  an element change nothing).
\<close>

theorem loadMessageMap_total:
  "loadMessageMap NoFile = [] \<and> loadMessageMap ReadError = [] \<and>
   loadMessageMap Blank = [] \<and> loadMessageMap NotJson = [] \<and>
   (\<not> is_array v \<longrightarrow> loadMessageMap (Json v) = []) \<and>
   distinct (map fst (loadMessageMap f)) \<and>
   map_of (loadMessageMap (Json (JArr arr))) = map_of (rev (List.map_filter first_entry arr)) \<and>
   loadMessageMap (Json (JArr (pre @ JObj ((k, w) # others) # post)))
     = loadMessageMap (Json (JArr (pre @ JObj [(k, w)] # post)))"
proof -
  have a: "\<not> is_array v \<longrightarrow> loadMessageMap (Json v) = []" by (cases v) auto
  have b: "distinct (map fst (loadMessageMap f))"
    by (cases f rule: loadMessageMap.cases) (simp_all add: load_items_distinct)
  have c: "map_of (loadMessageMap (Json (JArr arr))) = map_of (rev (List.map_filter first_entry arr))"
    by (simp add: load_items_map_of)
  have d: "loadMessageMap (Json (JArr (pre @ JObj ((k, w) # others) # post)))
        = loadMessageMap (Json (JArr (pre @ JObj [(k, w)] # post)))"
    by (simp add: load_items_append)
  show ?thesis using a b c d by simp
qed

theorem loadMessageMap_total_witness:
  "loadMessageMap (Json (JObj [(''5'', JObj [(''message_id'', JNum 1)])])) = [] \<and>
   distinct (map fst (loadMessageMap (Json (JArr
      [JObj [(''5'', JObj [(''message_id'', JNum 1)])], JNull,
       JObj [(''5'', JObj [(''message_id'', JNum 2)]), (''6'', JObj [(''message_id'', JNum 3)])]])))) \<and>
   loadMessageMap (Json (JArr
      [JObj [(''5'', JObj [(''message_id'', JNum 1)])], JNull,
       JObj [(''5'', JObj [(''message_id'', JNum 2)]), (''6'', JObj [(''message_id'', JNum 3)])]]))
    = [(''5'', JObj [(''message_id'', JNum 2)])]"
proof -
  let ?v = "JObj [(''5'', JObj [(''message_id'', JNum 1)])]"
  let ?arr = "[?v, JNull,
       JObj [(''5'', JObj [(''message_id'', JNum 2)]), (''6'', JObj [(''message_id'', JNum 3)])]]"
  note t = loadMessageMap_total [where v = ?v and f = "Json (JArr ?arr)" and arr = ?arr
      and k = "''5''" and pre = "[?v, JNull]" and w = "JObj [(''message_id'', JNum 2)]"
      and others = "[(''6'', JObj [(''message_id'', JNum 3)])]" and post = "[]"]
  have 1: "loadMessageMap (Json ?v) = []" using t by simp
  have 2: "distinct (map fst (loadMessageMap (Json (JArr ?arr))))" using t by blast
  have 3: "loadMessageMap (Json (JArr ?arr)) = [(''5'', JObj [(''message_id'', JNum 2)])]"
    using t by simp
  show ?thesis using 1 2 3 by simp
qed

section \<open>Properties of the message updater\<close>

lemma sendPhoto_eq:
  "sendPhoto env c s =
     (if reply_ok (env (length (calls s)))
      then (succeeded c (reply_id (env (length (calls s)))),
            s\<lparr>calls := calls s @ [SendPhoto (chat_id c),
                   PinChatMessage (chat_id c) (reply_id (env (length (calls s))))]\<rparr>)
      else (failed c, s\<lparr>calls := calls s @ [SendPhoto (chat_id c)]\<rparr>))"
  by (simp add: sendPhoto_def pinMessage_def Let_def)

lemma error_400_not_nullish:
  "error_400 (Reply json) \<Longrightarrow> \<not> nullish json"
  by (cases json) (auto simp: error_400_def strict_eq_def)

lemma editPhoto_eq:
  "editPhoto env c mid s =
     (let e = env (length (calls s));
          s1 = s\<lparr>calls := calls s @ [EditMessageMedia (chat_id c) mid]\<rparr>
      in if reply_ok e \<or> (error_400 e \<and> says_not_modified e)
         then ((succeeded c JUndefined)\<lparr>not_modified := \<not> reply_ok e\<rparr>,
               s\<lparr>calls := calls s @ [EditMessageMedia (chat_id c) mid,
                                       PinChatMessage (chat_id c) mid]\<rparr>)
         else if error_400 e
         then (let (sent, s2) = sendPhoto env c s1 in (sent\<lparr>replaced := True\<rparr>, s2))
         else (failed c, s1))"
proof (cases "env (length (calls s))")
  case NetworkError
  then show ?thesis
    by (simp add: editPhoto_def reply_ok_def error_400_def Let_def)
next
  case (Reply json)
  show ?thesis
  proof (cases "nullish json")
    case True
    then have "\<not> error_400 (Reply json)" using error_400_not_nullish by blast
    then show ?thesis using Reply True
      by (simp add: editPhoto_def reply_ok_def Let_def)
  next
    case False
    then show ?thesis using Reply
      by (auto simp: editPhoto_def reply_ok_def Let_def pinMessage_def succeeded_def)
  qed
qed

lemma id_changed_same: "\<not> id_changed m m"
  by (simp add: id_changed_def list_ex_iff)

lemma records_ok_update:
  "records_ok m \<Longrightarrow> is_object v \<Longrightarrow> records_ok (AList.update k v m)"
  by (induction m) (auto simp: records_ok_def)

lemma lookup_update: "lookup (AList.update k v m) k = v"
  by (simp add: lookup_def AList.update_conv')

lemma get_prop_update: "get_prop (JObj (AList.update name v kvs)) name = v"
  by (simp add: AList.update_conv')

lemma key_in_update: "k \<in> fst ` set (AList.update k v m)"
  by (simp add: AList.dom_update)

lemma id_changed_update:
  assumes "get_prop v ''message_id'' \<noteq> get_prop (lookup m k) ''message_id''"
  shows "id_changed m (AList.update k v m)"
proof -
  have "k \<in> set (map fst (AList.update k v m))" using key_in_update [of k v m] by simp
  moreover have "get_prop (lookup (AList.update k v m) k) ''message_id''
      \<noteq> get_prop (lookup m k) ''message_id''"
    using assms by (simp add: lookup_update)
  ultimately show ?thesis unfolding id_changed_def list_ex_iff by blast
qed

lemma is_object_cases: "is_object v \<Longrightarrow> \<exists>kvs. v = JObj kvs"
  by (cases v) auto

lemma setMessageId_absent:
  assumes "truthy mid" "map_of (messageMap s) (to_string cid) = None"
  shows "setMessageId cid mid s =
      Some (s\<lparr>messageMap := AList.update (to_string cid) (JObj [(''message_id'', mid)])
                               (messageMap s), mapDirty := True\<rparr>)"
proof -
  have ne: "mid \<noteq> JUndefined" using assms(1) by auto
  have l: "lookup (messageMap s) (to_string cid) = JUndefined"
    using assms(2) by (simp add: lookup_def)
  show ?thesis
    using assms(1) ne
    by (auto simp: setMessageId_def Let_def l lookup_update strict_eq_def AList.update_conv')
qed

lemma setMessageId_object:
  assumes "truthy mid" "map_of (messageMap s) (to_string cid) = Some (JObj kvs)"
  shows "setMessageId cid mid s =
      (if strict_eq (get_prop (JObj kvs) ''message_id'') mid then Some s
       else Some (s\<lparr>messageMap := AList.update (to_string cid)
                        (JObj (AList.update ''message_id'' mid kvs)) (messageMap s),
                    mapDirty := True\<rparr>))"
proof -
  have l: "lookup (messageMap s) (to_string cid) = JObj kvs"
    using assms(2) by (simp add: lookup_def)
  show ?thesis
    using assms(1) by (simp add: setMessageId_def Let_def l)
qed

lemma setMessageId_falsy: "\<not> truthy mid \<Longrightarrow> setMessageId cid mid s = Some s"
  by (simp add: setMessageId_def)

lemma setMessageId_calls:
  "setMessageId cid mid (s\<lparr>calls := cs\<rparr>) =
     map_option (\<lambda>t. t\<lparr>calls := cs\<rparr>) (setMessageId cid mid s)"
  by (simp add: setMessageId_def Let_def split: option.splits)

lemma setMessageId_frame:
  "setMessageId cid mid s = Some t \<Longrightarrow> results t = results s \<and> calls t = calls s"
  by (auto simp: setMessageId_def Let_def split: if_splits option.splits)

lemma process_chat_closed_form:
  assumes "valid_target c"
  shows "process_chat env c s =
     map_option
       (\<lambda>t. t\<lparr>calls := calls s @ expected_calls env (length (calls s)) (chat_id c)
                                   (known_id (messageMap s) (chat_id c)),
               results := results s @ [expected_result env (length (calls s)) c
                                   (known_id (messageMap s) (chat_id c))]\<rparr>)
       (setMessageId (chat_id c)
          (sent_id env (length (calls s)) (known_id (messageMap s) (chat_id c))) s)"
proof (cases "truthy (known_id (messageMap s) (chat_id c))")
  case False
  show ?thesis
  proof (cases "reply_ok (env (length (calls s)))")
    case True
    show ?thesis
    proof (cases "truthy (reply_id (env (length (calls s))))")
      case t: True
      show ?thesis using assms False True t
        by (auto simp: process_chat_def sendPhoto_eq expected_calls_def expected_result_def
            sent_id_def setMessageId_calls succeeded_def option.map_comp comp_def
            split: option.splits dest: setMessageId_frame)
    next
      case f: False
      show ?thesis using assms False True f
        by (simp add: process_chat_def sendPhoto_eq expected_calls_def expected_result_def
            sent_id_def setMessageId_falsy succeeded_def)
    qed
  next
    case f: False
    show ?thesis using assms False f
      by (simp add: process_chat_def sendPhoto_eq expected_calls_def expected_result_def
          sent_id_def setMessageId_falsy failed_def)
  qed
next
  case True
  let ?e = "env (length (calls s))"
  consider (ok) "reply_ok ?e \<or> (error_400 ?e \<and> says_not_modified ?e)"
    | (fallback) "\<not> reply_ok ?e" "error_400 ?e" "\<not> says_not_modified ?e"
    | (fail) "\<not> reply_ok ?e" "\<not> error_400 ?e" by blast
  then show ?thesis
  proof cases
    case ok
    then show ?thesis using assms True
      by (auto simp: process_chat_def editPhoto_eq Let_def expected_calls_def expected_result_def
          sent_id_def setMessageId_falsy succeeded_def)
  next
    case fail
    then show ?thesis using assms True
      by (simp add: process_chat_def editPhoto_eq Let_def expected_calls_def expected_result_def
          sent_id_def setMessageId_falsy failed_def)
  next
    case fallback
    show ?thesis
    proof (cases "reply_ok (env (Suc (length (calls s))))")
      case f: False
      then show ?thesis using assms True fallback
        by (simp add: process_chat_def editPhoto_eq Let_def sendPhoto_eq expected_calls_def
            expected_result_def sent_id_def setMessageId_falsy failed_def)
    next
      case t: True
      show ?thesis
      proof (cases "truthy (reply_id (env (Suc (length (calls s)))))")
        case True
        then show ?thesis using assms \<open>truthy (known_id (messageMap s) (chat_id c))\<close> fallback t
          by (auto simp: process_chat_def editPhoto_eq Let_def sendPhoto_eq expected_calls_def
              expected_result_def sent_id_def setMessageId_calls succeeded_def
              option.map_comp comp_def split: option.splits
              dest: setMessageId_frame)
      next
        case False
        then show ?thesis using assms \<open>truthy (known_id (messageMap s) (chat_id c))\<close> fallback t
          by (simp add: process_chat_def editPhoto_eq Let_def sendPhoto_eq expected_calls_def
              expected_result_def sent_id_def setMessageId_falsy succeeded_def)
      qed
    qed
  qed
qed

lemma known_id_absent:
  "map_of m (to_string cid) = None \<Longrightarrow> known_id m cid = JUndefined"
  by (simp add: known_id_def lookup_def)

lemma known_id_present:
  "map_of m (to_string cid) = Some v \<Longrightarrow> truthy (get_prop v ''message_id'') \<Longrightarrow>
   known_id m cid = get_prop v ''message_id'' \<and> (\<exists>kvs. v = JObj kvs)"
  by (cases v) (auto simp: known_id_def lookup_def)

text \<open>
  C1. Whatever the state of a run when a valid target's turn comes: if the map has no
  entry for its chat, the target issues exactly one \<open>sendPhoto\<close> request and no edit
  (the send is followed by the pin when it went through), and when the send returns a
  message identifier the map then holds the record \<open>{message_id}\<close> with it for the
  chat; if the map has a record with a message identifier for its chat, the target
  issues exactly one \<open>editMessageMedia\<close> request, first, and a \<open>sendPhoto\<close> request
  follows it only when the edit failed with error code 400 and not with the
  not-modified description.
\<close>

theorem absent_sends_present_edits:
  assumes "valid_target c" and "n = length (calls s)" and "k = to_string (chat_id c)"
  shows
    "(map_of (messageMap s) k = None \<longrightarrow>
       (\<exists>s'. process_chat env c s = Some s' \<and>
          calls s' = calls s @ SendPhoto (chat_id c) #
            (if reply_ok (env n) then [PinChatMessage (chat_id c) (reply_id (env n))] else []) \<and>
          (reply_ok (env n) \<and> truthy (reply_id (env n)) \<longrightarrow>
             map_of (messageMap s') k = Some (JObj [(''message_id'', reply_id (env n))])))) \<and>
     (\<forall>v. map_of (messageMap s) k = Some v \<and> truthy (get_prop v ''message_id'') \<longrightarrow>
       (\<exists>s'. process_chat env c s = Some s' \<and>
          calls s' = calls s @ EditMessageMedia (chat_id c) (get_prop v ''message_id'') #
            (if reply_ok (env n) \<or> (error_400 (env n) \<and> says_not_modified (env n))
             then [PinChatMessage (chat_id c) (get_prop v ''message_id'')]
             else if error_400 (env n)
             then SendPhoto (chat_id c) #
                    (if reply_ok (env (Suc n))
                     then [PinChatMessage (chat_id c) (reply_id (env (Suc n)))] else [])
             else [])))"
proof (intro conjI impI allI)
  assume a: "map_of (messageMap s) k = None"
  then have kn: "known_id (messageMap s) (chat_id c) = JUndefined"
    using assms(3) by (simp add: known_id_absent)
  show "\<exists>s'. process_chat env c s = Some s' \<and>
          calls s' = calls s @ SendPhoto (chat_id c) #
            (if reply_ok (env n) then [PinChatMessage (chat_id c) (reply_id (env n))] else []) \<and>
          (reply_ok (env n) \<and> truthy (reply_id (env n)) \<longrightarrow>
             map_of (messageMap s') k = Some (JObj [(''message_id'', reply_id (env n))]))"
  proof (cases "reply_ok (env n) \<and> truthy (reply_id (env n))")
    case True
    then show ?thesis
      using a assms(2,3)
      by (simp add: process_chat_closed_form [OF assms(1)] kn sent_id_def expected_calls_def
          setMessageId_absent AList.update_conv')
  next
    case False
    then have "\<not> truthy (sent_id env n JUndefined)" by (auto simp: sent_id_def)
    then show ?thesis
      using False assms(2)
      by (auto simp: process_chat_closed_form [OF assms(1)] kn setMessageId_falsy
          expected_calls_def)
  qed
next
  fix v
  assume b: "map_of (messageMap s) k = Some v \<and> truthy (get_prop v ''message_id'')"
  then obtain kvs where v: "v = JObj kvs" and
    kn: "known_id (messageMap s) (chat_id c) = get_prop v ''message_id''"
    using known_id_present [of "messageMap s" "chat_id c" v] assms(3) by auto
  have t: "truthy (get_prop v ''message_id'')" using b by simp
  have m: "map_of (messageMap s) (to_string (chat_id c)) = Some (JObj kvs)"
    using b v assms(3) by simp
  obtain t where st: "setMessageId (chat_id c) (sent_id env n (get_prop v ''message_id'')) s = Some t"
  proof (cases "truthy (sent_id env n (get_prop v ''message_id''))")
    case True
    then show ?thesis using setMessageId_object [OF True m] that by (auto split: if_splits)
  next
    case False
    then show ?thesis using setMessageId_falsy that by blast
  qed
  show "\<exists>s'. process_chat env c s = Some s' \<and>
          calls s' = calls s @ EditMessageMedia (chat_id c) (get_prop v ''message_id'') #
            (if reply_ok (env n) \<or> (error_400 (env n) \<and> says_not_modified (env n))
             then [PinChatMessage (chat_id c) (get_prop v ''message_id'')]
             else if error_400 (env n)
             then SendPhoto (chat_id c) #
                    (if reply_ok (env (Suc n))
                     then [PinChatMessage (chat_id c) (reply_id (env (Suc n)))] else [])
             else [])"
    using st t assms(2)
    by (simp add: process_chat_closed_form [OF assms(1)] kn expected_calls_def)
qed


theorem absent_sends_present_edits_witness:
  "(\<exists>s'. process_chat
       (\<lambda>n. if n = 0 then Reply (JObj [(''ok'', JBool True),
                                        (''result'', JObj [(''message_id'', JNum 41)])])
            else NetworkError)
       \<lparr>chat_id = JNum (-1001), image_url = Some ''https://example.org/kyiv.png'',
        caption = None\<rparr>
       \<lparr>messageMap = [], mapDirty = False, calls = [], results = []\<rparr> = Some s' \<and>
     calls s' = [SendPhoto (JNum (-1001)), PinChatMessage (JNum (-1001)) (JNum 41)] \<and>
     map_of (messageMap s') ''-1001'' = Some (JObj [(''message_id'', JNum 41)])) \<and>
   (\<exists>s'. process_chat
       (\<lambda>n. if n = 0 then Reply (JObj [(''ok'', JBool False), (''error_code'', JNum 400),
                              (''description'', JStr ''Bad Request: message to edit not found'')])
            else if n = 1 then Reply (JObj [(''ok'', JBool True),
                                        (''result'', JObj [(''message_id'', JNum 42)])])
            else NetworkError)
       \<lparr>chat_id = JNum (-1001), image_url = Some ''https://example.org/kyiv.png'',
        caption = None\<rparr>
       \<lparr>messageMap = [(''-1001'', JObj [(''message_id'', JNum 41)])], mapDirty = False,
        calls = [], results = []\<rparr> = Some s' \<and>
     calls s' = [EditMessageMedia (JNum (-1001)) (JNum 41), SendPhoto (JNum (-1001)),
                 PinChatMessage (JNum (-1001)) (JNum 42)])"
proof -
  let ?c = "\<lparr>chat_id = JNum (-1001), image_url = Some ''https://example.org/kyiv.png'',
        caption = None\<rparr>"
  let ?e1 = "\<lambda>n::nat. if n = 0 then Reply (JObj [(''ok'', JBool True),
                                        (''result'', JObj [(''message_id'', JNum 41)])])
            else NetworkError"
  let ?e2 = "\<lambda>n::nat. if n = 0 then Reply (JObj [(''ok'', JBool False), (''error_code'', JNum 400),
                              (''description'', JStr ''Bad Request: message to edit not found'')])
            else if n = 1 then Reply (JObj [(''ok'', JBool True),
                                        (''result'', JObj [(''message_id'', JNum 42)])])
            else NetworkError"
  let ?s1 = "\<lparr>messageMap = [], mapDirty = False, calls = [], results = []\<rparr>"
  let ?s2 = "\<lparr>messageMap = [(''-1001'', JObj [(''message_id'', JNum 41)])], mapDirty = False,
        calls = [], results = []\<rparr>"
  have v: "valid_target ?c" by (simp add: valid_target_def)
  have k: "''-1001'' = to_string (chat_id ?c)" by (simp add: show_int_def digits.simps)
  have a: "\<exists>s'. process_chat ?e1 ?c ?s1 = Some s' \<and>
     calls s' = [SendPhoto (JNum (-1001)), PinChatMessage (JNum (-1001)) (JNum 41)] \<and>
     map_of (messageMap s') ''-1001'' = Some (JObj [(''message_id'', JNum 41)])"
    using absent_sends_present_edits [OF v, of 0 ?s1 "''-1001''" ?e1, OF _ k, THEN conjunct1]
    by (simp add: reply_ok_def reply_id_def)
  have b: "\<exists>s'. process_chat ?e2 ?c ?s2 = Some s' \<and>
     calls s' = [EditMessageMedia (JNum (-1001)) (JNum 41), SendPhoto (JNum (-1001)),
                 PinChatMessage (JNum (-1001)) (JNum 42)]"
    using absent_sends_present_edits [OF v, of 0 ?s2 "''-1001''" ?e2, OF _ k, THEN conjunct2,
        THEN spec, of "JObj [(''message_id'', JNum 41)]"]
    by (simp add: reply_ok_def reply_id_def error_400_def says_not_modified_def strict_eq_def)
  show ?thesis using a b by blast
qed

lemma expected_result_facts:
  "chat (expected_result env n c known) = c \<and>
   reason (expected_result env n c known) = None \<and>
   message_id (expected_result env n c known) = sent_id env n known \<and>
   (truthy (sent_id env n known) \<longrightarrow> ok (expected_result env n c known)) \<and>
   length (filter is_pin (expected_calls env n (chat_id c) known))
     = (if ok (expected_result env n c known) then 1 else 0) \<and>
   length (filter (\<lambda>a. is_send a \<or> is_edit a) (expected_calls env n (chat_id c) known))
     = (if truthy known \<and> \<not> reply_ok (env n) \<and> error_400 (env n) \<and>
           \<not> says_not_modified (env n) then 2 else 1)"
  by (auto simp: expected_result_def expected_calls_def sent_id_def succeeded_def failed_def)

lemma setMessageId_known:
  assumes "truthy mid" "\<forall>v. map_of (messageMap s) (to_string cid) = Some v \<longrightarrow> is_object v"
  shows "\<exists>t. setMessageId cid mid s = Some t \<and> known_id (messageMap t) cid = mid"
proof (cases "map_of (messageMap s) (to_string cid)")
  case None
  then show ?thesis
    using setMessageId_absent [OF assms(1) None]
    by (simp add: known_id_def lookup_update)
next
  case (Some v)
  then obtain kvs where v: "v = JObj kvs" using assms(2) is_object_cases by blast
  have m: "map_of (messageMap s) (to_string cid) = Some (JObj kvs)" using Some v by simp
  show ?thesis
  proof (cases "strict_eq (get_prop (JObj kvs) ''message_id'') mid")
    case True
    then have "get_prop (JObj kvs) ''message_id'' = mid" by (simp add: strict_eq_def)
    then show ?thesis
      using setMessageId_object [OF assms(1) m] True m
      by (simp add: known_id_def lookup_def)
  next
    case False
    then show ?thesis
      using setMessageId_object [OF assms(1) m]
      by (simp add: known_id_def lookup_update get_prop_update del: get_prop.simps)
  qed
qed

text \<open>
  C7. When the edit of a known message fails with error code 400 and a description
  containing \<open>message is not modified\<close>, the target is reported ok (and marked
  not modified), the requests of the target are the edit and one pin of the existing
  message, and the map and its dirty flag are left as they were.
\<close>

theorem not_modified_is_success:
  assumes "valid_target c" and "known = known_id (messageMap s) (chat_id c)" and "truthy known"
    and "env (length (calls s)) = Reply json" and "\<not> truthy (get_prop json ''ok'')"
    and "get_prop json ''error_code'' = JNum 400"
    and "get_prop json ''description'' = JStr d"
    and "str_includes d ''message is not modified''"
  shows "\<exists>s' r. process_chat env c s = Some s' \<and> results s' = results s @ [r] \<and>
      ok r \<and> not_modified r \<and> chat r = c \<and>
      calls s' = calls s @ [EditMessageMedia (chat_id c) known, PinChatMessage (chat_id c) known] \<and>
      messageMap s' = messageMap s \<and> mapDirty s' = mapDirty s"
proof -
  let ?e = "env (length (calls s))"
  have 1: "\<not> reply_ok ?e" using assms(4,5) by (simp add: reply_ok_def)
  have 2: "error_400 ?e" using assms(4,6) by (simp add: error_400_def strict_eq_def)
  have 3: "says_not_modified ?e" using assms(4,7,8) by (simp add: says_not_modified_def)
  have "sent_id env (length (calls s)) known = JUndefined"
    using assms(3) 1 2 3 by (simp add: sent_id_def)
  then show ?thesis
    using assms(2,3) 1 2 3
    by (simp add: process_chat_closed_form [OF assms(1)] setMessageId_falsy expected_calls_def
        expected_result_def succeeded_def)
qed

theorem not_modified_is_success_witness:
  "\<exists>s' r. process_chat
      (\<lambda>n. if n = 0 then Reply (JObj [(''ok'', JBool False), (''error_code'', JNum 400),
         (''description'', JStr ''Bad Request: message is not modified: specified new message content and reply markup are exactly the same as a current content and reply markup of the message'')])
           else Reply (JObj [(''ok'', JBool True), (''result'', JBool True)]))
      \<lparr>chat_id = JNum (-1001), image_url = Some ''https://example.org/kyiv.png'',
        caption = None\<rparr>
      \<lparr>messageMap = [(''-1001'', JObj [(''message_id'', JNum 41)])], mapDirty = False,
        calls = [], results = []\<rparr> = Some s' \<and>
     results s' = [r] \<and> ok r \<and> not_modified r \<and>
     calls s' = [EditMessageMedia (JNum (-1001)) (JNum 41),
                 PinChatMessage (JNum (-1001)) (JNum 41)] \<and>
     messageMap s' = [(''-1001'', JObj [(''message_id'', JNum 41)])] \<and> \<not> mapDirty s'"
proof -
  let ?c = "\<lparr>chat_id = JNum (-1001), image_url = Some ''https://example.org/kyiv.png'',
        caption = None\<rparr>"
  let ?d = "''Bad Request: message is not modified: specified new message content and reply markup are exactly the same as a current content and reply markup of the message''"
  let ?j = "JObj [(''ok'', JBool False), (''error_code'', JNum 400), (''description'', JStr ?d)]"
  let ?e = "\<lambda>n::nat. if n = 0 then Reply ?j
           else Reply (JObj [(''ok'', JBool True), (''result'', JBool True)])"
  let ?s = "\<lparr>messageMap = [(''-1001'', JObj [(''message_id'', JNum 41)])], mapDirty = False,
        calls = [], results = []\<rparr>"
  have v: "valid_target ?c" by (simp add: valid_target_def)
  have k: "JNum 41 = known_id (messageMap ?s) (chat_id ?c)"
    by (simp add: known_id_def lookup_def show_int_def digits.simps)
  have e: "?e (length (calls ?s)) = Reply ?j" by simp
  have i: "str_includes ?d ''message is not modified''" by simp
  show ?thesis
    using not_modified_is_success [where c = ?c and s = ?s and env = ?e and json = ?j
        and d = ?d and known = "JNum 41"] v k i
    by simp blast
qed

text \<open>
  C6 (amended). For a valid target whose entry in the map, if any, is an object, the run
  issues one send-or-edit request, and a second one (the fallback send) exactly when the
  edit of a known message fails with error code 400 other than not-modified; it issues
  one pin request when the target is reported ok and none otherwise; when a send
  returned a message identifier the map then records it for the chat, and otherwise the
  map is left as it was.
\<close>

theorem attempts_and_pins:
  assumes "valid_target c"
    and "\<forall>v. map_of (messageMap s) (to_string (chat_id c)) = Some v \<longrightarrow> is_object v"
    and "n = length (calls s)" and "known = known_id (messageMap s) (chat_id c)"
  shows "\<exists>s' r new. process_chat env c s = Some s' \<and> results s' = results s @ [r] \<and>
      calls s' = calls s @ new \<and>
      length (filter (\<lambda>a. is_send a \<or> is_edit a) new)
        = (if truthy known \<and> \<not> reply_ok (env n) \<and> error_400 (env n) \<and>
              \<not> says_not_modified (env n) then 2 else 1) \<and>
      length (filter is_pin new) = (if ok r then 1 else 0) \<and>
      (ok r \<and> truthy (message_id r) \<longrightarrow> known_id (messageMap s') (chat_id c) = message_id r) \<and>
      (\<not> (ok r \<and> truthy (message_id r)) \<longrightarrow>
         messageMap s' = messageMap s \<and> mapDirty s' = mapDirty s)"
proof -
  let ?r = "expected_result env n c known"
  let ?new = "expected_calls env n (chat_id c) known"
  let ?sid = "sent_id env n known"
  note f = expected_result_facts [of env n c known]
  obtain t where t: "setMessageId (chat_id c) ?sid s = Some t"
    and tk: "truthy ?sid \<longrightarrow> known_id (messageMap t) (chat_id c) = ?sid"
    and tf: "\<not> truthy ?sid \<longrightarrow> t = s"
  proof (cases "truthy ?sid")
    case True
    then show ?thesis using setMessageId_known [OF True assms(2)] that by auto
  next
    case False
    then show ?thesis using setMessageId_falsy [OF False] that by auto
  qed
  have p: "process_chat env c s = Some (t\<lparr>calls := calls s @ ?new, results := results s @ [?r]\<rparr>)"
    using t assms(3,4) by (simp add: process_chat_closed_form [OF assms(1)])
  have "results (t\<lparr>calls := calls s @ ?new, results := results s @ [?r]\<rparr>) = results s @ [?r]"
    by simp
  moreover have "calls (t\<lparr>calls := calls s @ ?new, results := results s @ [?r]\<rparr>) = calls s @ ?new"
    by simp
  moreover have "ok ?r \<and> truthy (message_id ?r) \<longrightarrow>
      known_id (messageMap (t\<lparr>calls := calls s @ ?new, results := results s @ [?r]\<rparr>)) (chat_id c)
        = message_id ?r"
    using f tk by simp
  moreover have "\<not> (ok ?r \<and> truthy (message_id ?r)) \<longrightarrow>
      messageMap (t\<lparr>calls := calls s @ ?new, results := results s @ [?r]\<rparr>) = messageMap s \<and>
      mapDirty (t\<lparr>calls := calls s @ ?new, results := results s @ [?r]\<rparr>) = mapDirty s"
    using f tf by auto
  ultimately show ?thesis using p f by blast
qed

theorem attempts_and_pins_witness:
  "\<exists>s' r new. process_chat
      (\<lambda>n. if n = 0 then Reply (JObj [(''ok'', JBool False), (''error_code'', JNum 400),
                              (''description'', JStr ''Bad Request: message to edit not found'')])
           else if n = 1 then Reply (JObj [(''ok'', JBool True),
                                        (''result'', JObj [(''message_id'', JNum 42)])])
           else NetworkError)
      \<lparr>chat_id = JNum (-1001), image_url = Some ''https://example.org/kyiv.png'',
        caption = None\<rparr>
      \<lparr>messageMap = [(''-1001'', JObj [(''message_id'', JNum 41)])], mapDirty = False,
        calls = [], results = []\<rparr> = Some s' \<and>
     results s' = [r] \<and> calls s' = new \<and>
     length (filter (\<lambda>a. is_send a \<or> is_edit a) new) = 2 \<and>
     length (filter is_pin new) = (if ok r then 1 else 0) \<and>
     (ok r \<and> truthy (message_id r) \<longrightarrow>
        known_id (messageMap s') (JNum (-1001)) = message_id r)"
proof -
  let ?c = "\<lparr>chat_id = JNum (-1001), image_url = Some ''https://example.org/kyiv.png'',
        caption = None\<rparr>"
  let ?e = "\<lambda>n::nat. if n = 0 then Reply (JObj [(''ok'', JBool False), (''error_code'', JNum 400),
                              (''description'', JStr ''Bad Request: message to edit not found'')])
           else if n = 1 then Reply (JObj [(''ok'', JBool True),
                                        (''result'', JObj [(''message_id'', JNum 42)])])
           else NetworkError"
  let ?s = "\<lparr>messageMap = [(''-1001'', JObj [(''message_id'', JNum 41)])], mapDirty = False,
        calls = [], results = []\<rparr>"
  have v: "valid_target ?c" by (simp add: valid_target_def)
  have k: "to_string (JNum (-1001)) = ''-1001''" by (simp add: show_int_def digits.simps)
  have o: "\<forall>v. map_of (messageMap ?s) (to_string (chat_id ?c)) = Some v \<longrightarrow> is_object v"
    by (simp add: k del: to_string.simps)
  have kn: "JNum 41 = known_id (messageMap ?s) (chat_id ?c)"
    by (simp add: known_id_def lookup_def k del: to_string.simps)
  have n: "(0::nat) = length (calls ?s)" by simp
  obtain s' r new where "process_chat ?e ?c ?s = Some s'" "results s' = results ?s @ [r]"
    "calls s' = calls ?s @ new"
    "length (filter (\<lambda>a. is_send a \<or> is_edit a) new)
        = (if truthy (JNum 41) \<and> \<not> reply_ok (?e 0) \<and> error_400 (?e 0) \<and>
              \<not> says_not_modified (?e 0) then 2 else 1)"
    "length (filter is_pin new) = (if ok r then 1 else 0)"
    "ok r \<and> truthy (message_id r) \<longrightarrow> known_id (messageMap s') (chat_id ?c) = message_id r"
    using attempts_and_pins [OF v o n kn, of ?e] by blast
  then show ?thesis
    by (simp add: reply_ok_def error_400_def says_not_modified_def strict_eq_def)
qed

text \<open>
  C6 as stated fails where the edit of a known message is answered with error 400
  (message not found) and the fallback send fails: two send-or-edit requests and no pin.
\<close>

theorem edit_then_failed_send:
  "map_option calls (process_chat
      (\<lambda>n. if n = 0 then Reply (JObj [(''ok'', JBool False), (''error_code'', JNum 400),
                              (''description'', JStr ''Bad Request: message to edit not found'')])
           else NetworkError)
      \<lparr>chat_id = JNum (-1001), image_url = Some ''https://example.org/kyiv.png'',
        caption = None\<rparr>
      \<lparr>messageMap = [(''-1001'', JObj [(''message_id'', JNum 41)])], mapDirty = False,
        calls = [], results = []\<rparr>)
   = Some [EditMessageMedia (JNum (-1001)) (JNum 41), SendPhoto (JNum (-1001))]"
  by (simp add: process_chat_def valid_target_def known_id_def lookup_def show_int_def
      digits.simps editPhoto_def sendPhoto_def reply_ok_def error_400_def strict_eq_def
      says_not_modified_def failed_def Let_def)

lemma records_ok_entry:
  "records_ok m \<Longrightarrow> map_of m k = Some v \<Longrightarrow> is_object v"
proof -
  assume a: "records_ok m" and b: "map_of m k = Some v"
  have "(k, v) \<in> set m" using b by (rule map_of_SomeD)
  then show ?thesis using a unfolding records_ok_def list_all_iff by force
qed

lemma process_chat_invalid:
  "\<not> valid_target c \<Longrightarrow>
   process_chat env c s = Some (s\<lparr>results := results s @ [invalid_config c]\<rparr>)"
  by (simp add: process_chat_def)

lemma setMessageId_invariant:
  assumes "records_ok (messageMap s)"
  shows "\<exists>t. setMessageId cid mid s = Some t \<and> records_ok (messageMap t) \<and>
      (distinct (map fst (messageMap s)) \<longrightarrow> distinct (map fst (messageMap t))) \<and>
      (is_primitive mid \<longrightarrow>
         mapDirty t = (mapDirty s \<or> id_changed (messageMap s) (messageMap t)))"
proof (cases "truthy mid")
  case False
  then show ?thesis using assms by (simp add: setMessageId_falsy id_changed_same)
next
  case True
  then have ne: "mid \<noteq> JUndefined" by auto
  show ?thesis
  proof (cases "map_of (messageMap s) (to_string cid)")
    case None
    have l: "lookup (messageMap s) (to_string cid) = JUndefined"
      using None by (simp add: lookup_def)
    have "id_changed (messageMap s)
        (AList.update (to_string cid) (JObj [(''message_id'', mid)]) (messageMap s))"
      by (rule id_changed_update) (use ne l in simp)
    then show ?thesis
      using setMessageId_absent [OF True None] assms
      by (simp add: records_ok_update AList.distinct_update)
  next
    case (Some v)
    then obtain kvs where v: "v = JObj kvs"
      using records_ok_entry [OF assms Some] is_object_cases by blast
    have m: "map_of (messageMap s) (to_string cid) = Some (JObj kvs)" using Some v by simp
    have l: "lookup (messageMap s) (to_string cid) = JObj kvs" using m by (simp add: lookup_def)
    show ?thesis
    proof (cases "strict_eq (get_prop (JObj kvs) ''message_id'') mid")
      case eq: True
      then show ?thesis
        using setMessageId_object [OF True m] assms by (simp add: id_changed_same)
    next
      case neq: False
      have "is_primitive mid \<Longrightarrow> id_changed (messageMap s)
          (AList.update (to_string cid) (JObj (AList.update ''message_id'' mid kvs)) (messageMap s))"
      proof (rule id_changed_update)
        assume p: "is_primitive mid"
        have "mid \<noteq> get_prop (JObj kvs) ''message_id''"
          using neq p by (auto simp: strict_eq_def)
        then show "get_prop (JObj (AList.update ''message_id'' mid kvs)) ''message_id''
            \<noteq> get_prop (lookup (messageMap s) (to_string cid)) ''message_id''"
          unfolding l get_prop_update by simp
      qed
      then show ?thesis
        using setMessageId_object [OF True m] assms neq
        by (auto simp: records_ok_update AList.distinct_update)
    qed
  qed
qed

lemma sent_id_primitive:
  "\<forall>n. is_primitive (reply_id (env n)) \<Longrightarrow> is_primitive (sent_id env n known)"
  by (simp add: sent_id_def)

lemma process_chat_invariant:
  assumes "records_ok (messageMap s)"
  shows "\<exists>s' r. process_chat env c s = Some s' \<and> records_ok (messageMap s') \<and>
      (distinct (map fst (messageMap s)) \<longrightarrow> distinct (map fst (messageMap s'))) \<and>
      results s' = results s @ [r] \<and> chat r = c \<and>
      (genuine_failure r \<longleftrightarrow> valid_target c \<and> \<not> ok r) \<and>
      ((\<forall>n. is_primitive (reply_id (env n))) \<longrightarrow>
         mapDirty s' = (mapDirty s \<or> id_changed (messageMap s) (messageMap s')))"
proof (cases "valid_target c")
  case False
  then show ?thesis
    using assms
    by (simp add: process_chat_invalid invalid_config_def genuine_failure_def id_changed_same)
next
  case True
  let ?n = "length (calls s)"
  let ?known = "known_id (messageMap s) (chat_id c)"
  obtain t where t: "setMessageId (chat_id c) (sent_id env ?n ?known) s = Some t"
    "records_ok (messageMap t)"
    "distinct (map fst (messageMap s)) \<longrightarrow> distinct (map fst (messageMap t))"
    "is_primitive (sent_id env ?n ?known) \<longrightarrow>
         mapDirty t = (mapDirty s \<or> id_changed (messageMap s) (messageMap t))"
    using setMessageId_invariant [OF assms] by blast
  note f = expected_result_facts [of env ?n c ?known]
  show ?thesis
    using t f True sent_id_primitive [of env ?n ?known]
    by (simp add: process_chat_closed_form [OF True] genuine_failure_def)
qed

lemma run_chats_invariant:
  assumes "records_ok (messageMap s)"
  shows "\<exists>s' rs. run_chats env cs s = Some s' \<and> records_ok (messageMap s') \<and>
      (distinct (map fst (messageMap s)) \<longrightarrow> distinct (map fst (messageMap s'))) \<and>
      results s' = results s @ rs \<and> map chat rs = cs \<and>
      (\<forall>r\<in>set rs. genuine_failure r \<longleftrightarrow> valid_target (chat r) \<and> \<not> ok r) \<and>
      ((\<forall>n. is_primitive (reply_id (env n))) \<longrightarrow>
         mapDirty s' = (mapDirty s \<or> changed_during env cs s))"
  using assms
proof (induction cs arbitrary: s)
  case Nil
  then show ?case by simp
next
  case (Cons c cs)
  obtain s1 r where 1: "process_chat env c s = Some s1" "records_ok (messageMap s1)"
    "distinct (map fst (messageMap s)) \<longrightarrow> distinct (map fst (messageMap s1))"
    "results s1 = results s @ [r]" "chat r = c"
    "genuine_failure r \<longleftrightarrow> valid_target c \<and> \<not> ok r"
    "(\<forall>n. is_primitive (reply_id (env n))) \<longrightarrow>
         mapDirty s1 = (mapDirty s \<or> id_changed (messageMap s) (messageMap s1))"
    using process_chat_invariant [OF Cons.prems] by blast
  obtain s' rs where 2: "run_chats env cs s1 = Some s'" "records_ok (messageMap s')"
    "distinct (map fst (messageMap s1)) \<longrightarrow> distinct (map fst (messageMap s'))"
    "results s' = results s1 @ rs" "map chat rs = cs"
    "\<forall>r\<in>set rs. genuine_failure r \<longleftrightarrow> valid_target (chat r) \<and> \<not> ok r"
    "(\<forall>n. is_primitive (reply_id (env n))) \<longrightarrow>
         mapDirty s' = (mapDirty s1 \<or> changed_during env cs s1)"
    using Cons.IH [OF 1(2)] by blast
  have a: "run_chats env (c # cs) s = Some s'" using 1(1) 2(1) by simp
  have b: "results s' = results s @ (r # rs)" using 1(4) 2(4) by simp
  have c: "map chat (r # rs) = c # cs" using 1(5) 2(5) by simp
  have d: "\<forall>x\<in>set (r # rs). genuine_failure x \<longleftrightarrow> valid_target (chat x) \<and> \<not> ok x"
    using 1(5,6) 2(6) by auto
  have e: "(\<forall>n. is_primitive (reply_id (env n))) \<longrightarrow>
         mapDirty s' = (mapDirty s \<or> changed_during env (c # cs) s)"
    using 1(1,7) 2(7) by auto
  have f: "distinct (map fst (messageMap s)) \<longrightarrow> distinct (map fst (messageMap s'))"
    using 1(3) 2(3) by simp
  show ?case
    apply (rule exI [of _ s'])
    apply (rule exI [of _ "r # rs"])
    using a 2(2) f b c d e by simp
qed


lemma save_records_ok:
  assumes "records_ok m" "distinct (map fst m)"
  shows "\<exists>ks. saveMessageMap lc m =
        Some (JArr (map (\<lambda>k. JObj [(k, record_of (get_prop (lookup m k) ''message_id''))]) ks)) \<and>
      ks = sort_by lc (object_keys m) \<and> distinct ks \<and> set ks = fst ` set m"
proof -
  have "\<not> nullish (lookup m k)" if kin: "k \<in> set (map fst m)" for k
  proof -
    obtain v where "(k, v) \<in> set m" using kin by force
    then have "map_of m k = Some v" using assms(2) by simp
    then have "lookup m k = v" "is_object v"
      using records_ok_entry [OF assms(1)] by (simp_all add: lookup_def)
    then show ?thesis by (cases v) auto
  qed
  then have "\<not> list_ex (\<lambda>k. nullish (lookup m k)) (sort_by lc (object_keys m))"
    by (simp add: list_ex_iff)
  then have "saveMessageMap lc m =
      Some (JArr (map (\<lambda>k. JObj [(k, record_of (get_prop (lookup m k) ''message_id''))])
                    (sort_by lc (object_keys m))))"
    by (simp add: saveMessageMap_def Let_def)
  moreover have "distinct (sort_by lc (object_keys m))"
    using distinct_object_keys [OF assms(2)] by simp
  moreover have "set (sort_by lc (object_keys m)) = fst ` set m" by simp
  ultimately show ?thesis by blast
qed

lemma loadMessageMap_distinct: "distinct (map fst (loadMessageMap f))"
  by (cases f rule: loadMessageMap.cases) (simp_all add: load_items_distinct)

text \<open>
  C8. With a non-empty list of targets and a map file whose records are objects, the
  script runs to its end with one result per target, in order; it exits with code 10
  exactly when some valid target (one with \<open>chat_id\<close> and \<open>image_url\<close>) is reported
  not ok, and with code 0 exactly when every valid target is reported ok: the skipped
  invalid-configuration targets never count.
\<close>

theorem exit_code_reflects_genuine_failures:
  assumes "chats \<noteq> []" and "records_ok (loadMessageMap file)"
  shows "\<exists>s w code. main env lc chats file = Done s w code \<and> map chat (results s) = chats \<and>
      (code = 10 \<longleftrightarrow> (\<exists>r\<in>set (results s). valid_target (chat r) \<and> \<not> ok r)) \<and>
      (code = 0 \<longleftrightarrow> (\<forall>r\<in>set (results s). valid_target (chat r) \<longrightarrow> ok r))"
proof -
  let ?s0 = "\<lparr>messageMap = loadMessageMap file, mapDirty = False, calls = [], results = []\<rparr>"
  have "records_ok (messageMap ?s0)" using assms(2) by simp
  from run_chats_invariant [OF this, of env chats]
  obtain s rs where r: "run_chats env chats ?s0 = Some s" "results s = rs" "map chat rs = chats"
    "\<forall>r\<in>set rs. genuine_failure r \<longleftrightarrow> valid_target (chat r) \<and> \<not> ok r"
    by auto
  have g: "filter genuine_failure (results s) \<noteq> [] \<longleftrightarrow>
      (\<exists>r\<in>set (results s). valid_target (chat r) \<and> \<not> ok r)"
    using r(2,4) by (auto simp: filter_empty_conv)
  show ?thesis
    using assms(1) r(1,2,3) g by (auto simp: main_def)
qed

text \<open>
  C5 (amended). With a non-empty list of targets, a map file whose records are objects,
  message identifiers that are primitive values (Telegram's are numbers) and a
  consistent comparator, the file is written at the end of the run if and only if some
  record's \<open>message_id\<close> changed while a target was processed; what is written is the
  whole final map, one single-key object per chat, the keys in the ascending order of
  \<open>localeCompare\<close>.
\<close>

theorem map_written_iff_changed:
  assumes "consistent lc" and "chats \<noteq> []" and "records_ok (loadMessageMap file)"
    and "\<forall>n. is_primitive (reply_id (env n))"
    and "s0 = \<lparr>messageMap = loadMessageMap file, mapDirty = False, calls = [], results = []\<rparr>"
  shows "\<exists>s w code. main env lc chats file = Done s w code \<and>
      (w \<noteq> None \<longleftrightarrow> changed_during env chats s0) \<and>
      (\<forall>arr. w = Some arr \<longrightarrow>
         (\<exists>ks. arr = JArr (map (\<lambda>k. JObj [(k, record_of (get_prop (lookup (messageMap s) k)
                                                        ''message_id''))]) ks) \<and>
               sorted_wrt (\<lambda>a b. lc a b \<le> 0) ks \<and> distinct ks \<and>
               set ks = fst ` set (messageMap s)))"
proof -
  have ok0: "records_ok (messageMap s0)" using assms(3,5) by simp
  have d0: "distinct (map fst (messageMap s0))" using assms(5) loadMessageMap_distinct by simp
  from run_chats_invariant [OF ok0, of env chats]
  obtain s where r: "run_chats env chats s0 = Some s" "records_ok (messageMap s)"
    "distinct (map fst (messageMap s))" "mapDirty s = changed_during env chats s0"
    using assms(4,5) d0 by auto
  obtain ks where ks: "saveMessageMap lc (messageMap s) =
        Some (JArr (map (\<lambda>k. JObj [(k, record_of (get_prop (lookup (messageMap s) k)
                                                        ''message_id''))]) ks))"
      "ks = sort_by lc (object_keys (messageMap s))" "distinct ks"
      "set ks = fst ` set (messageMap s)"
    using save_records_ok [OF r(2,3)] by blast
  have so: "sorted_wrt (\<lambda>a b. lc a b \<le> 0) ks"
    unfolding ks(2) using sorted_sort_by [OF assms(1)] .
  have m: "main env lc chats file =
      Done s (if mapDirty s then saveMessageMap lc (messageMap s) else None)
           (if filter genuine_failure (results s) \<noteq> [] then 10 else 0)"
    using assms(2,5) r(1) by (simp add: main_def)
  show ?thesis
    unfolding m using r(4) ks(1,3,4) so by auto
qed

theorem exit_code_reflects_genuine_failures_witness:
  "(\<exists>s w code. main (\<lambda>n. NetworkError) sample_compare
       [\<lparr>chat_id = JUndefined, image_url = Some ''https://example.org/kyiv.png'',
        caption = None\<rparr>,
        \<lparr>chat_id = JNum (-1001), image_url = Some ''https://example.org/kyiv.png'',
        caption = None\<rparr>] NoFile
        = Done s w code \<and> code = 10 \<and>
       (\<exists>r\<in>set (results s). valid_target (chat r) \<and> \<not> ok r)) \<and>
   (\<exists>s w code. main (\<lambda>n. NetworkError) sample_compare
       [\<lparr>chat_id = JUndefined, image_url = Some ''https://example.org/kyiv.png'',
        caption = None\<rparr>] NoFile
        = Done s w code \<and> code = 0 \<and>
       (\<forall>r\<in>set (results s). valid_target (chat r) \<longrightarrow> ok r))"
proof -
  let ?bad = "\<lparr>chat_id = JUndefined, image_url = Some ''https://example.org/kyiv.png'',
        caption = None\<rparr>"
  let ?good = "\<lparr>chat_id = JNum (-1001), image_url = Some ''https://example.org/kyiv.png'',
        caption = None\<rparr>"
  let ?e = "\<lambda>n::nat. NetworkError"
  have ok: "records_ok (loadMessageMap NoFile)" by (simp add: records_ok_def)
  have e1: "case main ?e sample_compare [?bad, ?good] NoFile of
      Done s w code \<Rightarrow> code = 10 | _ \<Rightarrow> False"
    by code_simp
  have e2: "case main ?e sample_compare [?bad] NoFile of
      Done s w code \<Rightarrow> code = 0 | _ \<Rightarrow> False"
    by code_simp
  obtain s w code where 1: "main ?e sample_compare [?bad, ?good] NoFile = Done s w code"
    "code = 10 \<longleftrightarrow> (\<exists>r\<in>set (results s). valid_target (chat r) \<and> \<not> ok r)"
    using exit_code_reflects_genuine_failures [where chats = "[?bad, ?good]" and ?file = NoFile
        and env = ?e and lc = sample_compare] ok by auto
  have a: "code = 10" using e1 1(1) by simp
  obtain s' w' code' where 2: "main ?e sample_compare [?bad] NoFile = Done s' w' code'"
    "code' = 0 \<longleftrightarrow> (\<forall>r\<in>set (results s'). valid_target (chat r) \<longrightarrow> ok r)"
    using exit_code_reflects_genuine_failures [where chats = "[?bad]" and ?file = NoFile
        and env = ?e and lc = sample_compare] ok by auto
  have b: "code' = 0" using e2 2(1) by simp
  show ?thesis using 1 a 2 b by blast
qed

theorem map_written_iff_changed_witness:
  "(\<exists>s code. main (\<lambda>n. if n = 0 then Reply (JObj [(''ok'', JBool True),
                                        (''result'', JObj [(''message_id'', JNum 7)])])
                       else if n = 2 then Reply (JObj [(''ok'', JBool True),
                                        (''result'', JObj [(''message_id'', JNum 8)])])
                       else Reply (JObj [(''ok'', JBool True), (''result'', JBool True)]))
       sample_compare
       [\<lparr>chat_id = JStr ''@kyiv'', image_url = Some ''https://example.org/kyiv.png'',
        caption = None\<rparr>,
        \<lparr>chat_id = JNum (-1001), image_url = Some ''https://example.org/kyiv.png'',
        caption = None\<rparr>]
       (Json (persisted [(''100'', JNum 41)]))
      = Done s (Some (JArr [JObj [(''-1001'', JObj [(''message_id'', JNum 8)])],
                            JObj [(''@kyiv'', JObj [(''message_id'', JNum 7)])],
                            JObj [(''100'', JObj [(''message_id'', JNum 41)])]])) code) \<and>
   changed_during (\<lambda>n. if n = 0 then Reply (JObj [(''ok'', JBool True),
                                        (''result'', JObj [(''message_id'', JNum 7)])])
                       else if n = 2 then Reply (JObj [(''ok'', JBool True),
                                        (''result'', JObj [(''message_id'', JNum 8)])])
                       else Reply (JObj [(''ok'', JBool True), (''result'', JBool True)]))
       [\<lparr>chat_id = JStr ''@kyiv'', image_url = Some ''https://example.org/kyiv.png'',
        caption = None\<rparr>,
        \<lparr>chat_id = JNum (-1001), image_url = Some ''https://example.org/kyiv.png'',
        caption = None\<rparr>]
       \<lparr>messageMap = [(''100'', JObj [(''message_id'', JNum 41)])], mapDirty = False,
        calls = [], results = []\<rparr> \<and>
   sorted_wrt (\<lambda>a b. sample_compare a b \<le> 0) [''-1001'', ''@kyiv'', ''100'']"
proof -
  let ?kyiv = "\<lparr>chat_id = JStr ''@kyiv'', image_url = Some ''https://example.org/kyiv.png'',
        caption = None\<rparr>"
  let ?good = "\<lparr>chat_id = JNum (-1001), image_url = Some ''https://example.org/kyiv.png'',
        caption = None\<rparr>"
  let ?e = "\<lambda>n::nat. if n = 0 then Reply (JObj [(''ok'', JBool True),
                                        (''result'', JObj [(''message_id'', JNum 7)])])
                       else if n = 2 then Reply (JObj [(''ok'', JBool True),
                                        (''result'', JObj [(''message_id'', JNum 8)])])
                       else Reply (JObj [(''ok'', JBool True), (''result'', JBool True)])"
  let ?mf = "Json (persisted [(''100'', JNum 41)])"
  let ?s0 = "\<lparr>messageMap = [(''100'', JObj [(''message_id'', JNum 41)])], mapDirty = False,
        calls = [], results = []\<rparr>"
  let ?arr = "JArr [JObj [(''-1001'', JObj [(''message_id'', JNum 8)])],
                    JObj [(''@kyiv'', JObj [(''message_id'', JNum 7)])],
                    JObj [(''100'', JObj [(''message_id'', JNum 41)])]]"
  have l: "loadMessageMap ?mf = [(''100'', JObj [(''message_id'', JNum 41)])]"
    by (simp add: persisted_def)
  have ok: "records_ok (loadMessageMap ?mf)" unfolding l by (simp add: records_ok_def)
  have p: "\<forall>n. is_primitive (reply_id (?e n))" by (simp add: reply_id_def)
  have s0: "?s0 = \<lparr>messageMap = loadMessageMap ?mf, mapDirty = False, calls = [],
      results = []\<rparr>" unfolding l by simp
  have ev: "case main ?e sample_compare [?kyiv, ?good] ?mf of
      Done s w code \<Rightarrow> w = Some ?arr | _ \<Rightarrow> False"
    by code_simp
  obtain s w code where 1: "main ?e sample_compare [?kyiv, ?good] ?mf = Done s w code"
    "w \<noteq> None \<longleftrightarrow> changed_during ?e [?kyiv, ?good] ?s0"
    using map_written_iff_changed [where chats = "[?kyiv, ?good]" and ?file = ?mf
        and env = ?e and ?s0.0 = ?s0 and lc = sample_compare, OF consistent_sample _ ok p s0]
    by auto
  have w: "w = Some ?arr" using ev 1(1) by simp
  then have c: "changed_during ?e [?kyiv, ?good] ?s0" using 1(2) by simp
  have so: "sorted_wrt (\<lambda>a b. sample_compare a b \<le> 0) [''-1001'', ''@kyiv'', ''100'']"
    by (simp add: sample_compare_def char_rank_def)
  show ?thesis using 1(1) w c so by blast
qed

text \<open>
  C5 as stated fails: the keys are not written in lexicographic order. With the map file
  holding a record for chat \<open>100\<close> and a first photo sent to \<open>@kyiv\<close>, the array
  written has \<open>@kyiv\<close> first, as \<open>localeCompare\<close> orders them, although \<open>100\<close> is
  the smaller string in the lexicographic order of the characters.
\<close>

theorem written_order_not_lexicographic:
  "written (main (\<lambda>n. if n = 0 then Reply (JObj [(''ok'', JBool True),
                                        (''result'', JObj [(''message_id'', JNum 7)])])
                       else Reply (JObj [(''ok'', JBool True), (''result'', JBool True)]))
       sample_compare
       [\<lparr>chat_id = JStr ''@kyiv'', image_url = Some ''https://example.org/kyiv.png'',
        caption = None\<rparr>]
       (Json (persisted [(''100'', JNum 41)])))
     = Some (JArr [JObj [(''@kyiv'', JObj [(''message_id'', JNum 7)])],
                   JObj [(''100'', JObj [(''message_id'', JNum 41)])]]) \<and>
   ''100'' < ''@kyiv''"
proof -
  have "written (main (\<lambda>n. if n = 0 then Reply (JObj [(''ok'', JBool True),
                                        (''result'', JObj [(''message_id'', JNum 7)])])
                       else Reply (JObj [(''ok'', JBool True), (''result'', JBool True)]))
       sample_compare
       [\<lparr>chat_id = JStr ''@kyiv'', image_url = Some ''https://example.org/kyiv.png'',
        caption = None\<rparr>]
       (Json (persisted [(''100'', JNum 41)])))
     = Some (JArr [JObj [(''@kyiv'', JObj [(''message_id'', JNum 7)])],
                   JObj [(''100'', JObj [(''message_id'', JNum 41)])]])"
    by code_simp
  moreover have "''100'' < ''@kyiv''" by simp
  ultimately show ?thesis by blast
qed

section \<open>Properties of the outgoing photo and caption\<close>














end
